theory Spec2Isabelle
  imports Complex_Main "HOL-Library.Multiset"
begin

section \<open>Data model\<close>

text \<open>
  A node of the mind map as the editor holds it: \<open>{ id, name, collapsed?, px?, py?, children }\<close>.
  An optional field is an \<open>option\<close>; JavaScript numbers are idealised as reals (the editing
  operations only store and compare them). The selector for \<open>id\<close> is \<open>nid\<close>, since \<open>id\<close> is
  the identity function of HOL.
\<close>

datatype node = Node (nid: string) (name: string) (collapsed: "bool option")
  (px: "real option") (py: "real option") (children: "node list")

text \<open>
  A parsed JSON tree as \<open>importJSON\<close> and \<open>assignIds\<close> receive it: every field may be absent;
  an absent \<open>children\<close> and an empty one are read alike (\<open>n.children || []\<close>), so the list is
  kept total.
\<close>

datatype jnode = JNode (jid: "string option") (jname: "string option")
  (jcollapsed: "bool option") (jpx: "real option") (jpy: "real option")
  (jchildren: "jnode list")

text \<open>
  A snapshot is \<open>JSON.stringify({ tree, selectedId })\<close>; \<open>restore\<close> parses it back. On the
  values of this model the round trip through JSON is the identity, so a snapshot is the pair
  itself. \<open>selectedId\<close> can be \<open>null\<close> (after \<open>reset\<close>), hence the option.
\<close>

type_synonym snapshot = "node \<times> string option"

record state =
  tree :: node
  selectedId :: "string option"
  undoStack :: "snapshot list"
  redoStack :: "snapshot list"
  preDragSnapshot :: "snapshot option"
  nanoidCalls :: nat

text \<open>
  \<open>nanoid(8)\<close> is a library call that draws a random id. Its results are a parameter
  \<open>gen\<close> of the model: the \<open>k\<close>-th call of the session returns \<open>gen k\<close>, and the state counts
  the calls made so far.
\<close>

datatype error = TypeError | RangeError

datatype result = Returned state | Threw error state

section \<open>utils.js\<close>

fun ids :: "node \<Rightarrow> string list" where
  "ids (Node i nm c x y cs) = i # concat (map ids cs)"

fun assignIds :: "(nat \<Rightarrow> string) \<Rightarrow> jnode \<Rightarrow> nat \<Rightarrow> node \<times> nat"
  and assignIds_list :: "(nat \<Rightarrow> string) \<Rightarrow> jnode list \<Rightarrow> nat \<Rightarrow> node list \<times> nat" where
  "assignIds gen (JNode i nm c x y cs) k =
     (case (case i of None \<Rightarrow> (gen k, Suc k)
                    | Some v \<Rightarrow> if v = [] then (gen k, Suc k) else (v, k)) of
        (i', k1) \<Rightarrow>
          (case assignIds_list gen cs k1 of
             (cs', k2) \<Rightarrow>
               (Node i' (case nm of None \<Rightarrow> ''Node'' | Some v \<Rightarrow> v) c x y cs', k2)))"
| "assignIds_list gen [] k = ([], k)"
| "assignIds_list gen (c # cs) k =
     (case assignIds gen c k of
        (c', k1) \<Rightarrow> (case assignIds_list gen cs k1 of (cs', k2) \<Rightarrow> (c' # cs', k2)))"

fun findNode :: "node \<Rightarrow> string \<Rightarrow> node option"
  and findNode_list :: "node list \<Rightarrow> string \<Rightarrow> node option" where
  "findNode (Node i nm c x y cs) a =
     (if i = a then Some (Node i nm c x y cs) else findNode_list cs a)"
| "findNode_list [] a = None"
| "findNode_list (c # cs) a =
     (case findNode c a of Some found \<Rightarrow> Some found | None \<Rightarrow> findNode_list cs a)"

text \<open>
  \<open>mapTree(node, fn)\<close> applies \<open>fn\<close> to the node and then maps itself over the children of
  the result. For a callback that leaves \<open>children\<close> alone (those of \<open>renameNode\<close>,
  \<open>toggleCollapse\<close> and \<open>moveNode\<close>) these are the children of the node itself, which is what
  the recursion below runs over. The two callbacks that append a child (\<open>addChild\<close>,
  \<open>reparent\<close>) are unfolded in \<open>addChildAt\<close> and \<open>reattach\<close>.
\<close>

fun mapTree :: "(node \<Rightarrow> node) \<Rightarrow> node \<Rightarrow> node" where
  "mapTree fn (Node i nm c x y cs) =
     (case fn (Node i nm c x y cs) of
        Node i' nm' c' x' y' cs' \<Rightarrow> Node i' nm' c' x' y' (map (mapTree fn) cs))"

section \<open>App.jsx: history helpers\<close>

definition snapshot :: "state \<Rightarrow> snapshot" where
  "snapshot s = (tree s, selectedId s)"

definition restore :: "snapshot \<Rightarrow> state \<Rightarrow> state" where
  "restore snap s = s\<lparr>tree := fst snap, selectedId := snd snap\<rparr>"

definition cap :: "snapshot list \<Rightarrow> snapshot list" where
  "cap next = (if length next > 10 then drop (length next - 10) next else next)"

definition pushUndo :: "state \<Rightarrow> state" where
  "pushUndo s = s\<lparr>undoStack := cap (undoStack s @ [snapshot s]), redoStack := []\<rparr>"

definition pushUndoUnlessDragging :: "state \<Rightarrow> state" where
  "pushUndoUnlessDragging s = (if preDragSnapshot s = None then pushUndo s else s)"

section \<open>App.jsx: tree operations\<close>

text \<open>
  The callback of \<open>addChild\<close> draws a fresh id at every node whose id is the target and
  appends the new node; \<open>mapTree\<close> then walks the children, the new one last. The new node is
  kept as it is: the walk changes it only when \<open>nanoid\<close> returns the very id that was
  targeted, a collision this model leaves out.
\<close>

fun addChildAt :: "(nat \<Rightarrow> string) \<Rightarrow> string \<Rightarrow> node \<Rightarrow> nat \<Rightarrow> node \<times> nat"
  and addChildAt_list :: "(nat \<Rightarrow> string) \<Rightarrow> string \<Rightarrow> node list \<Rightarrow> nat \<Rightarrow> node list \<times> nat" where
  "addChildAt gen a (Node i nm c x y cs) k =
     (if i = a then
        (case assignIds gen (JNode None (Some ''New Node'') None None None []) k of
           (child, k1) \<Rightarrow>
             (case addChildAt_list gen a cs k1 of
                (cs', k2) \<Rightarrow> (Node i nm c x y (cs' @ [child]), k2)))
      else
        (case addChildAt_list gen a cs k of
           (cs', k2) \<Rightarrow> (Node i nm c x y cs', k2)))"
| "addChildAt_list gen a [] k = ([], k)"
| "addChildAt_list gen a (c # cs) k =
     (case addChildAt gen a c k of
        (c', k1) \<Rightarrow> (case addChildAt_list gen a cs k1 of (cs', k2) \<Rightarrow> (c' # cs', k2)))"

definition addChild :: "(nat \<Rightarrow> string) \<Rightarrow> string \<Rightarrow> state \<Rightarrow> state" where
  "addChild gen a s =
     (let s1 = pushUndoUnlessDragging s in
      case addChildAt gen a (tree s) (nanoidCalls s) of
        (newTree, k) \<Rightarrow> s1\<lparr>tree := newTree, selectedId := Some a, nanoidCalls := k\<rparr>)"

text \<open>The local function \<open>remove\<close> of \<open>deleteNode\<close> and of \<open>reparent\<close>.\<close>

fun remove :: "string \<Rightarrow> node \<Rightarrow> node" where
  "remove a (Node i nm c x y cs) =
     Node i nm c x y (map (remove a) (filter (\<lambda>c. nid c \<noteq> a) cs))"

definition deleteNode :: "string \<Rightarrow> state \<Rightarrow> state" where
  "deleteNode a s =
     (if nid (tree s) = a then s
      else let s1 = pushUndoUnlessDragging s; newTree = remove a (tree s)
           in s1\<lparr>tree := newTree, selectedId := Some (nid newTree)\<rparr>)"

text \<open>
  \<open>(name || 'Node').trim() || 'Node'\<close>. Of the white space that \<open>trim\<close> removes, the
  ASCII characters are modelled (space, tab, line feed, vertical tab, form feed, carriage
  return).
\<close>

definition isSpace :: "char \<Rightarrow> bool" where
  "isSpace ch = (ch \<in> {CHR '' '', CHR 0x09, CHR 0x0A, CHR 0x0B, CHR 0x0C, CHR 0x0D})"

definition trim :: "string \<Rightarrow> string" where
  "trim str = rev (dropWhile isSpace (rev (dropWhile isSpace str)))"

definition renameNode :: "string \<Rightarrow> string \<Rightarrow> state \<Rightarrow> state" where
  "renameNode a nm s =
     (let s1 = pushUndoUnlessDragging s;
          trimmed = trim (if nm = [] then ''Node'' else nm);
          newName = (if trimmed = [] then ''Node'' else trimmed)
      in s1\<lparr>tree := mapTree (\<lambda>n. if nid n = a
             then Node (nid n) newName (collapsed n) (px n) (py n) (children n) else n) (tree s)\<rparr>)"

definition toggleCollapse :: "string \<Rightarrow> state \<Rightarrow> state" where
  "toggleCollapse a s =
     (let s1 = pushUndoUnlessDragging s
      in s1\<lparr>tree := mapTree (\<lambda>n. if nid n = a
             then Node (nid n) (name n) (Some (collapsed n \<noteq> Some True)) (px n) (py n) (children n)
             else n) (tree s)\<rparr>)"

text \<open>\<open>isDesc\<close>, the descendant-containment walk of \<open>reparent\<close>.\<close>

fun isDesc :: "node \<Rightarrow> string \<Rightarrow> bool"
  and isDesc_some :: "node list \<Rightarrow> string \<Rightarrow> bool" where
  "isDesc (Node i nm c x y cs) a = (if i = a then True else isDesc_some cs a)"
| "isDesc_some [] a = False"
| "isDesc_some (c # cs) a = (if isDesc c a then True else isDesc_some cs a)"

text \<open>
  The filter callback of \<open>reparent\<close>'s \<open>remove\<close> assigns each child it drops to the variable
  \<open>moved\<close>: first the dropped children of a node, in order, then whatever the walk of the
  kept children assigns. \<open>removed\<close> lists these assignments in order; \<open>moved\<close> ends up as the
  last one, or stays \<open>null\<close>.
\<close>

fun removed :: "string \<Rightarrow> node \<Rightarrow> node list" where
  "removed a (Node i nm c x y cs) =
     filter (\<lambda>c. nid c = a) cs @ concat (map (removed a) (filter (\<lambda>c. nid c \<noteq> a) cs))"

definition moved_of :: "string \<Rightarrow> node \<Rightarrow> node option" where
  "moved_of a t = (case removed a t of [] \<Rightarrow> None | m # ms \<Rightarrow> Some (last (m # ms)))"

text \<open>
  The \<open>mapTree\<close> call of \<open>reparent\<close>: its callback appends \<open>moved\<close> to the children of every
  node whose id is the new parent's. \<open>mapTree\<close> walks into the appended subtree too, where the
  callback changes nothing unless that subtree holds the new parent's id; in that case the
  walk appends and descends without end, which \<open>reparent\<close> below reports as the \<open>RangeError\<close>
  of the exhausted call stack.
\<close>

fun reattach :: "string \<Rightarrow> node \<Rightarrow> node \<Rightarrow> node" where
  "reattach a moved (Node i nm c x y cs) =
     Node i nm c x y (map (reattach a moved) cs @ (if i = a then [moved] else []))"

definition reparent :: "string \<Rightarrow> string \<Rightarrow> state \<Rightarrow> result" where
  "reparent childId newParentId s =
     (if childId = nid (tree s) then Returned s
      else if childId = newParentId then Returned s
      else (case findNode (tree s) childId of
        None \<Rightarrow> Threw TypeError s
      | Some childNode \<Rightarrow>
          (if isDesc childNode newParentId then Returned s
           else
             (let s1 = pushUndoUnlessDragging s;
                  without = remove childId (tree s)
              in (case moved_of childId (tree s) of
                    None \<Rightarrow> Returned s1
                  | Some moved \<Rightarrow>
                      (if isDesc without newParentId \<and> isDesc moved newParentId
                       then Threw RangeError s1
                       else Returned (s1\<lparr>tree := reattach newParentId moved without,
                                          selectedId := Some childId\<rparr>)))))))"

definition moveNode :: "string \<Rightarrow> real \<Rightarrow> real \<Rightarrow> state \<Rightarrow> state" where
  "moveNode a x y s =
     (let s1 = (if preDragSnapshot s = None then s\<lparr>preDragSnapshot := Some (snapshot s)\<rparr> else s)
      in s1\<lparr>tree := mapTree (\<lambda>n. if nid n = a
             then Node (nid n) (name n) (collapsed n) (Some x) (Some y) (children n) else n)
             (tree s)\<rparr>)"

definition moveCommit :: "state \<Rightarrow> state" where
  "moveCommit s =
     (case preDragSnapshot s of
        None \<Rightarrow> s
      | Some pre \<Rightarrow> s\<lparr>undoStack := cap (undoStack s @ [pre]), redoStack := [],
                       preDragSnapshot := None\<rparr>)"

definition undo :: "state \<Rightarrow> state" where
  "undo s =
     (if undoStack s = [] then s
      else restore (last (undoStack s))
             (s\<lparr>undoStack := butlast (undoStack s), redoStack := redoStack s @ [snapshot s]\<rparr>))"

definition redo :: "state \<Rightarrow> state" where
  "redo s =
     (if redoStack s = [] then s
      else restore (last (redoStack s))
             (s\<lparr>redoStack := butlast (redoStack s), undoStack := undoStack s @ [snapshot s]\<rparr>))"

section \<open>App.jsx: export, import, reset\<close>

fun strip :: "node \<Rightarrow> jnode" where
  "strip (Node i nm c x y cs) =
     JNode None (Some nm) None
       (if x \<noteq> None \<and> y \<noteq> None then x else None)
       (if x \<noteq> None \<and> y \<noteq> None then y else None)
       (map strip cs)"

definition exportJSON :: "state \<Rightarrow> jnode" where
  "exportJSON s = strip (tree s)"

text \<open>
  \<open>addIds\<close> of \<open>importJSON\<close>: \<open>assignIds\<close> runs on a copy of the node that has only \<open>name\<close> and
  \<open>children\<close> (so it draws an id for the node, and one for every descendant without one, whose
  results are then thrown away), \<open>px\<close> and \<open>py\<close> are copied when both are there, and the
  children are rebuilt by \<open>addIds\<close> itself.
\<close>

fun addIds :: "(nat \<Rightarrow> string) \<Rightarrow> jnode \<Rightarrow> nat \<Rightarrow> node \<times> nat"
  and addIds_list :: "(nat \<Rightarrow> string) \<Rightarrow> jnode list \<Rightarrow> nat \<Rightarrow> node list \<times> nat" where
  "addIds gen (JNode i nm c x y cs) k =
     (case assignIds gen (JNode None nm None None None cs) k of
        (base, k1) \<Rightarrow>
          (case addIds_list gen cs k1 of
             (cs', k2) \<Rightarrow>
               (Node (nid base) (name base) (collapsed base)
                  (if x \<noteq> None \<and> y \<noteq> None then x else px base)
                  (if x \<noteq> None \<and> y \<noteq> None then y else py base) cs', k2)))"
| "addIds_list gen [] k = ([], k)"
| "addIds_list gen (c # cs) k =
     (case addIds gen c k of
        (c', k1) \<Rightarrow> (case addIds_list gen cs k1 of (cs', k2) \<Rightarrow> (c' # cs', k2)))"

definition importJSON :: "(nat \<Rightarrow> string) \<Rightarrow> jnode \<Rightarrow> state \<Rightarrow> state" where
  "importJSON gen json s =
     (case addIds gen json (nanoidCalls s) of
        (withIds, k) \<Rightarrow>
          s\<lparr>tree := withIds, selectedId := Some (nid withIds),
            undoStack := [], redoStack := [], nanoidCalls := k\<rparr>)"

definition reset :: "(nat \<Rightarrow> string) \<Rightarrow> state \<Rightarrow> state" where
  "reset gen s =
     (case assignIds gen (JNode None (Some ''Central Topic'') None None None []) (nanoidCalls s) of
        (t, k) \<Rightarrow>
          s\<lparr>tree := t, selectedId := None, undoStack := [], redoStack := [], nanoidCalls := k\<rparr>)"

section \<open>App.jsx: the render cycle\<close>

text \<open>
  The effect "Ensure selected exists" runs after every render: a selection that
  \<open>findNode\<close> does not find in the tree is replaced by the root's id.
\<close>

definition ensureSelected :: "state \<Rightarrow> state" where
  "ensureSelected s =
     (case (case selectedId s of None \<Rightarrow> None | Some a \<Rightarrow> findNode (tree s) a) of
        None \<Rightarrow> s\<lparr>selectedId := Some (nid (tree s))\<rparr>
      | Some found \<Rightarrow> s)"

text \<open>
  One user event: the handler runs on the state of the current render, then the effect.
  An exception leaves the handler; the state updates queued before it stay. These are the
  handlers that \<open>App\<close> passes to the canvas and binds to the toolbar, which are made anew at
  every render; the key listener that an effect of \<open>App\<close> registers is not modelled.
\<close>

fun stateAfter :: "result \<Rightarrow> state" where
  "stateAfter (Returned s) = s"
| "stateAfter (Threw e s) = s"

datatype event =
    Select string
  | AddChild string
  | DeleteNode string
  | RenameNode string string
  | ToggleCollapse string
  | Reparent string string
  | MoveNode string real real
  | MoveCommit
  | Undo
  | Redo
  | ImportJSON jnode
  | Reset

fun handle :: "(nat \<Rightarrow> string) \<Rightarrow> event \<Rightarrow> state \<Rightarrow> state" where
  "handle gen (Select a) s = s\<lparr>selectedId := Some a\<rparr>"
| "handle gen (AddChild a) s = addChild gen a s"
| "handle gen (DeleteNode a) s = deleteNode a s"
| "handle gen (RenameNode a nm) s = renameNode a nm s"
| "handle gen (ToggleCollapse a) s = toggleCollapse a s"
| "handle gen (Reparent a b) s = stateAfter (reparent a b s)"
| "handle gen (MoveNode a x y) s = moveNode a x y s"
| "handle gen MoveCommit s = moveCommit s"
| "handle gen Undo s = undo s"
| "handle gen Redo s = redo s"
| "handle gen (ImportJSON json) s = importJSON gen json s"
| "handle gen Reset s = reset gen s"

definition step :: "(nat \<Rightarrow> string) \<Rightarrow> event \<Rightarrow> state \<Rightarrow> state" where
  "step gen e s = ensureSelected (handle gen e s)"

fun run :: "(nat \<Rightarrow> string) \<Rightarrow> event list \<Rightarrow> state \<Rightarrow> state" where
  "run gen [] s = s"
| "run gen (e # es) s = run gen es (step gen e s)"

section \<open>MindMap.jsx: positions\<close>

text \<open>
  JavaScript numbers are idealised as reals in this part, and \<open>Math.cos\<close>, \<open>Math.sin\<close>,
  \<open>Math.hypot\<close> as the real functions they approximate.

  \<open>radiusScale\<close> is the radius handed to \<open>d3.tree().size\<close> for a viewport of width \<open>w\<close>
  and height \<open>h\<close>. The layout itself is the d3 library's: the polar coordinates \<open>d.x\<close>
  (angle) and \<open>d.y\<close> (radius) that it gives a node are inputs of \<open>layoutNode\<close>, the
  callback of \<open>laid.descendants().map\<close>. Of the object that the callback returns, the
  position fields are kept (\<open>x\<close> and \<open>y\<close> as \<open>resolvedX\<close> and \<open>resolvedY\<close>, \<open>r\<close> as
  \<open>radius\<close>); \<open>a ?? b\<close> is \<open>b\<close> when \<open>a\<close> is absent.
\<close>

definition radiusScale :: "real \<Rightarrow> real \<Rightarrow> real" where
  "radiusScale w h = max 260 (min w h * 0.42)"

record placed =
  resolvedX :: real
  resolvedY :: real
  autoX :: real
  autoY :: real
  angle :: real
  radius :: real

definition layoutNode :: "real \<Rightarrow> real \<Rightarrow> node \<Rightarrow> placed" where
  "layoutNode dx dy n =
     (let ax = dy * cos (dx - pi / 2);
          ay = dy * sin (dx - pi / 2)
      in \<lparr>resolvedX = (case px n of None \<Rightarrow> ax | Some v \<Rightarrow> v),
          resolvedY = (case py n of None \<Rightarrow> ay | Some v \<Rightarrow> v),
          autoX = ax, autoY = ay, angle = dx, radius = dy\<rparr>)"

section \<open>MindMap.jsx: connector curves\<close>

text \<open>
  The callback of \<open>laid.links().map\<close>, for a link from the resolved position \<open>s\<close> of the
  parent to the resolved position \<open>t\<close> of the child, whose depth in the hierarchy is \<open>d\<close>.
  Division never fails in JavaScript (a zero divisor gives an infinity or \<open>NaN\<close>); here it
  is partial, so that a zero divisor shows as \<open>None\<close>. The divisor \<open>dist || 1\<close> is \<open>1\<close> when
  \<open>dist\<close> is zero and \<open>dist\<close> otherwise. Of the path string the two control points are
  kept (its end points are \<open>s\<close> and \<open>t\<close>); the colour is left out.
\<close>

definition hypot :: "real \<Rightarrow> real \<Rightarrow> real" where
  "hypot dx dy = sqrt (dx\<^sup>2 + dy\<^sup>2)"

definition jsDivide :: "real \<Rightarrow> real \<Rightarrow> real option" where
  "jsDivide a b = (if b = 0 then None else Some (a / b))"

record link =
  direction :: "real \<times> real"
  bend :: real
  control1 :: "real \<times> real"
  control2 :: "real \<times> real"
  depth :: nat
  width :: real

definition linkOf :: "real \<times> real \<Rightarrow> real \<times> real \<Rightarrow> nat \<Rightarrow> link option" where
  "linkOf s t d =
     (let dx = fst t - fst s; dy = snd t - snd s;
          dist = hypot dx dy
      in case jsDivide dx (if dist = 0 then 1 else dist) of
           None \<Rightarrow> None
         | Some nx \<Rightarrow>
            (case jsDivide dy (if dist = 0 then 1 else dist) of
               None \<Rightarrow> None
             | Some ny \<Rightarrow>
                let ox = - ny; oy = nx;
                    bend = min 80 (max 20 (dist * 0.2))
                in Some \<lparr>direction = (nx, ny), bend = bend,
                     control1 = (fst s + dx * 0.33 + ox * bend * 0.2,
                                 snd s + dy * 0.33 + oy * bend * 0.2),
                     control2 = (fst s + dx * 0.66 - ox * bend * 0.2,
                                 snd s + dy * 0.66 - oy * bend * 0.2),
                     depth = d,
                     width = max 1.5 (4 - real d * 0.4)\<rparr>))"

section \<open>Sessions\<close>

text \<open>The \<open>moveNode\<close> calls of a drag, one per pointer move: the node and its new position.\<close>

definition dragEvents :: "(string \<times> real \<times> real) list \<Rightarrow> event list" where
  "dragEvents ms = map (\<lambda>(a, x, y). MoveNode a x y) ms"

text \<open>
  The edits of a session: one call of a structural operation, or a completed drag (its
  \<open>moveNode\<close> calls followed by \<open>moveCommit\<close>). Each call is a user event, followed by the
  render effect.
\<close>

datatype edit =
    EditAddChild string
  | EditDeleteNode string
  | EditRenameNode string string
  | EditToggleCollapse string
  | EditReparent string string
  | EditDrag "(string \<times> real \<times> real) list"

fun eventsOf :: "edit \<Rightarrow> event list" where
  "eventsOf (EditAddChild a) = [AddChild a]"
| "eventsOf (EditDeleteNode a) = [DeleteNode a]"
| "eventsOf (EditRenameNode a nm) = [RenameNode a nm]"
| "eventsOf (EditToggleCollapse a) = [ToggleCollapse a]"
| "eventsOf (EditReparent a b) = [Reparent a b]"
| "eventsOf (EditDrag ms) = dragEvents ms @ [MoveCommit]"

fun runEdits :: "(nat \<Rightarrow> string) \<Rightarrow> edit list \<Rightarrow> state \<Rightarrow> state" where
  "runEdits gen [] s = s"
| "runEdits gen (e # es) s = runEdits gen es (run gen (eventsOf e) s)"

text \<open>
  An edit is accepted when it passes the guards that its handler checks before
  \<open>pushUndo\<close>: \<open>deleteNode\<close> returns at once on the root, \<open>reparent\<close> on the root, on
  \<open>childId === newParentId\<close> and on a new parent inside the moved subtree (and throws on an
  unknown child); a drag without a \<open>moveNode\<close> call commits nothing.
\<close>

fun accepted :: "edit \<Rightarrow> state \<Rightarrow> bool" where
  "accepted (EditAddChild a) s = True"
| "accepted (EditDeleteNode a) s = (nid (tree s) \<noteq> a)"
| "accepted (EditRenameNode a nm) s = True"
| "accepted (EditToggleCollapse a) s = True"
| "accepted (EditReparent a b) s =
     (a \<noteq> nid (tree s) \<and> a \<noteq> b \<and>
      (case findNode (tree s) a of None \<Rightarrow> False | Some childNode \<Rightarrow> \<not> isDesc childNode b))"
| "accepted (EditDrag ms) s = (ms \<noteq> [])"

fun someAccepted :: "(nat \<Rightarrow> string) \<Rightarrow> edit list \<Rightarrow> state \<Rightarrow> bool" where
  "someAccepted gen [] s = False"
| "someAccepted gen (e # es) s =
     (if accepted e s then True else someAccepted gen es (run gen (eventsOf e) s))"

text \<open>The selection names a node of the tree (what the render effect establishes).\<close>

definition selectedExists :: "state \<Rightarrow> bool" where
  "selectedExists s =
     (case selectedId s of None \<Rightarrow> False | Some a \<Rightarrow> findNode (tree s) a \<noteq> None)"

section \<open>Reading a tree\<close>

text \<open>
  Reading a tree: \<open>rows\<close> lists the nodes in document order (a node before its children,
  the children in order), each with the id of its parent and its own fields; \<open>nodes\<close> lists
  the subtrees in the same order.
\<close>

type_synonym row = "string option \<times> string \<times> string \<times> bool option \<times> real option \<times> real option"

fun rows :: "string option \<Rightarrow> node \<Rightarrow> row list" where
  "rows p (Node i nm c x y cs) = (p, i, nm, c, x, y) # concat (map (rows (Some i)) cs)"

definition rowId :: "row \<Rightarrow> string" where
  "rowId r = fst (snd r)"

fun nodes :: "node \<Rightarrow> node list" where
  "nodes (Node i nm c x y cs) = Node i nm c x y cs # concat (map nodes cs)"

text \<open>
  The imported tree \<open>t'\<close> agrees with the tree \<open>t\<close> up to ids: the same name at every node,
  the same children in the same order, and the position of \<open>t\<close> where \<open>t\<close> has both \<open>px\<close>
  and \<open>py\<close> (no position otherwise).
\<close>

fun sameModuloIds :: "node \<Rightarrow> node \<Rightarrow> bool"
  and sameModuloIds_list :: "node list \<Rightarrow> node list \<Rightarrow> bool" where
  "sameModuloIds (Node i nm c x y cs) t' =
     (name t' = nm
      \<and> (if x \<noteq> None \<and> y \<noteq> None then px t' = x \<and> py t' = y
          else px t' = None \<and> py t' = None)
      \<and> sameModuloIds_list cs (children t'))"
| "sameModuloIds_list [] cs' = (cs' = [])"
| "sameModuloIds_list (c # cs) cs' =
     (case cs' of [] \<Rightarrow> False | c' # cs'' \<Rightarrow> sameModuloIds c c' \<and> sameModuloIds_list cs cs'')"

text \<open>
  The ids \<open>xs\<close> are the results of distinct \<open>nanoid\<close> calls, in call order, all made from
  call number \<open>k\<close> on and before call number \<open>k'\<close>.
\<close>

definition drawnIn :: "(nat \<Rightarrow> string) \<Rightarrow> nat \<Rightarrow> nat \<Rightarrow> string list \<Rightarrow> bool" where
  "drawnIn gen k k' xs = (\<exists>ns. xs = map gen ns \<and> sorted_wrt (<) ns \<and> set ns \<subseteq> {k..<k'})"

section \<open>Example data\<close>

text \<open>A small session used to run the operations on concrete data.\<close>

definition demo_tree :: node where
  "demo_tree = Node ''r'' ''Root'' None None None
     [Node ''a'' ''A'' None None None [Node ''b'' ''B'' None None None []],
      Node ''c'' ''C'' None None None []]"

definition demo_state :: state where
  "demo_state = \<lparr>tree = demo_tree, selectedId = Some ''r'', undoStack = [], redoStack = [],
     preDragSnapshot = None, nanoidCalls = 0\<rparr>"

definition demo_gen :: "nat \<Rightarrow> string" where
  "demo_gen k = CHR ''n'' # replicate k CHR ''x''"

text \<open>A state with an empty undo stack and one entry to redo: one edit, undone.\<close>

definition demo_redo_state :: state where
  "demo_redo_state = run demo_gen [ToggleCollapse ''a'', Undo] demo_state"

text \<open>Two more sessions: a new child selected after \<open>addChild\<close>; a state with history both ways.\<close>

definition demo_child_selected :: state where
  "demo_child_selected = run demo_gen [Select ''a'', AddChild ''a'', Select ''n''] demo_state"

definition demo_history_state :: state where
  "demo_history_state = run demo_gen [DeleteNode ''c'', ToggleCollapse ''a'', Undo] demo_state"

section \<open>Basic facts\<close>

lemma run_append: "run gen (xs @ ys) s = run gen ys (run gen xs s)"
  by (induction xs arbitrary: s) auto

lemma ensureSelected_fields [simp]:
  "tree (ensureSelected s) = tree s"
  "undoStack (ensureSelected s) = undoStack s"
  "redoStack (ensureSelected s) = redoStack s"
  "preDragSnapshot (ensureSelected s) = preDragSnapshot s"
  "nanoidCalls (ensureSelected s) = nanoidCalls s"
  by (auto simp: ensureSelected_def split: option.splits)

lemma findNode_root [simp]: "findNode t (nid t) = Some t"
  by (cases t) simp

lemma selectedExists_ensureSelected [simp]: "selectedExists (ensureSelected s)"
  by (auto simp: selectedExists_def ensureSelected_def split: option.splits)

lemma ensureSelected_id: "selectedExists s \<Longrightarrow> ensureSelected s = s"
  by (auto simp: selectedExists_def ensureSelected_def split: option.splits)

lemma selectedExists_step [simp]: "selectedExists (step gen e s)"
  by (simp add: step_def)

lemmas model_defs = demo_state_def demo_tree_def demo_gen_def snapshot_def restore_def cap_def
  pushUndo_def pushUndoUnlessDragging_def addChild_def deleteNode_def renameNode_def
  toggleCollapse_def reparent_def moved_of_def moveNode_def moveCommit_def undo_def redo_def
  importJSON_def reset_def exportJSON_def ensureSelected_def step_def Let_def

section \<open>Trees with distinct ids\<close>

lemma rowId_simp [simp]: "rowId (p, i, rest) = i"
  by (simp add: rowId_def)

lemma nid_in_ids [simp]: "nid t \<in> set (ids t)"
  by (cases t) simp

lemma rows_ids: "map rowId (rows p t) = ids t"
proof (induction t arbitrary: p)
  case (Node i nm c x y cs)
  have "map rowId (concat (map (rows q) cs)) = concat (map ids cs)" for q
    using Node.IH by (induction cs) auto
  then show ?case by simp
qed

lemma findNode_None_iff:
  "(findNode t a = None) = (a \<notin> set (ids t))"
  "(findNode_list cs a = None) = (a \<notin> set (concat (map ids cs)))"
  by (induction t a and cs a rule: findNode_findNode_list.induct) (auto split: option.splits)

lemma findNode_Some:
  "findNode t a = Some n \<Longrightarrow> nid n = a \<and> set (ids n) \<subseteq> set (ids t)"
  "findNode_list cs a = Some n \<Longrightarrow> nid n = a \<and> set (ids n) \<subseteq> set (concat (map ids cs))"
  by (induction t a and cs a rule: findNode_findNode_list.induct)
     (auto split: option.splits if_splits)

lemma findNode_list_Cons:
  "findNode_list (c # cs) a = (if a \<in> set (ids c) then findNode c a else findNode_list cs a)"
  using findNode_None_iff(1)[of c a] by (auto split: option.splits)

lemma isDesc_iff:
  "isDesc t a = (a \<in> set (ids t))"
  "isDesc_some cs a = (a \<in> set (concat (map ids cs)))"
  by (induction t a and cs a rule: isDesc_isDesc_some.induct) auto

lemma remove_absent: "a \<notin> set (ids t) \<Longrightarrow> remove a t = t"
proof (induction t)
  case (Node i nm c x y cs)
  have "\<forall>k \<in> set cs. nid k \<noteq> a" using Node.prems nid_in_ids by fastforce
  then have f: "filter (\<lambda>c. nid c \<noteq> a) cs = cs" by (simp add: filter_id_conv)
  have "map (remove a) cs = cs"
    using Node by (intro map_idI) auto
  then show ?case using f by simp
qed

lemma nid_remove [simp]: "nid (remove a t) = nid t"
  by (cases t) simp

lemma rows_filter_disjoint:
  "set (ids t) \<inter> S = {} \<Longrightarrow> filter (\<lambda>r. rowId r \<notin> S) (rows p t) = rows p t"
proof -
  assume "set (ids t) \<inter> S = {}"
  then have "\<forall>r \<in> set (rows p t). rowId r \<notin> S"
    using rows_ids[of p t] by (metis disjoint_iff image_eqI set_map)
  then show ?thesis by (simp add: filter_id_conv)
qed

lemma rows_filter_subset:
  "set (ids t) \<subseteq> S \<Longrightarrow> filter (\<lambda>r. rowId r \<notin> S) (rows p t) = []"
proof -
  assume "set (ids t) \<subseteq> S"
  then have "\<forall>r \<in> set (rows p t). rowId r \<in> S"
    using rows_ids[of p t] by (metis image_eqI set_map subsetD)
  then show ?thesis by (simp add: filter_empty_conv)
qed

lemma remove_rows_list:
  assumes "distinct (concat (map ids cs))"
    and "findNode_list cs a = Some n"
    and "\<forall>c \<in> set cs. nid c \<noteq> a \<longrightarrow> findNode c a = Some n \<longrightarrow>
           rows q (remove a c) = filter (\<lambda>r. rowId r \<notin> set (ids n)) (rows q c)"
  shows "concat (map (rows q) (map (remove a) (filter (\<lambda>c. nid c \<noteq> a) cs)))
       = filter (\<lambda>r. rowId r \<notin> set (ids n)) (concat (map (rows q) cs))"
  using assms
proof (induction cs)
  case Nil
  then show ?case by simp
next
  case (Cons c cs)
  let ?F = "filter (\<lambda>r. rowId r \<notin> set (ids n))"
  have dc: "distinct (concat (map ids cs))" and disj: "set (ids c) \<inter> set (concat (map ids cs)) = {}"
    using Cons.prems(1) by auto
  have ih3: "\<forall>c \<in> set cs. nid c \<noteq> a \<longrightarrow> findNode c a = Some n \<longrightarrow>
           rows q (remove a c) = ?F (rows q c)"
    using Cons.prems(3) by simp
  show ?case
  proof (cases "a \<in> set (ids c)")
    case True
    then have fc: "findNode c a = Some n"
      using Cons.prems(2) by (simp add: findNode_list_Cons del: findNode_list.simps)
    have sub: "set (ids n) \<subseteq> set (ids c)" using findNode_Some(1)[OF fc] by simp
    have anot: "a \<notin> set (concat (map ids cs))" using True disj by auto
    have keep: "\<forall>k \<in> set cs. nid k \<noteq> a" using anot nid_in_ids by fastforce
    have rest1: "map (remove a) (filter (\<lambda>c. nid c \<noteq> a) cs) = cs"
    proof -
      have "filter (\<lambda>c. nid c \<noteq> a) cs = cs" using keep by (simp add: filter_id_conv)
      moreover have "map (remove a) cs = cs"
        using anot by (intro map_idI remove_absent) auto
      ultimately show ?thesis by simp
    qed
    have "\<forall>k \<in> set cs. ?F (rows q k) = rows q k"
    proof
      fix k assume "k \<in> set cs"
      then have "set (ids k) \<inter> set (ids n) = {}" using sub disj by auto
      then show "?F (rows q k) = rows q k" by (rule rows_filter_disjoint)
    qed
    then have m: "map (\<lambda>k. ?F (rows q k)) cs = map (rows q) cs" by (intro map_cong) auto
    have rest2: "?F (concat (map (rows q) cs)) = concat (map (rows q) cs)"
      unfolding filter_concat map_map o_def m ..
    show ?thesis
    proof (cases "nid c = a")
      case True
      then have "n = c" using fc by (cases c) auto
      then have "?F (rows q c) = []" by (simp add: rows_filter_subset)
      then show ?thesis using True rest1 rest2 by simp
    next
      case False
      have "rows q (remove a c) = ?F (rows q c)"
        using Cons.prems(3) False fc by simp
      then show ?thesis using False rest1 rest2 by simp
    qed
  next
    case False
    then have fl: "findNode_list cs a = Some n"
      using Cons.prems(2) by (simp add: findNode_list_Cons del: findNode_list.simps)
    have na: "nid c \<noteq> a" using False nid_in_ids[of c] by auto
    have "set (ids n) \<subseteq> set (concat (map ids cs))" using findNode_Some(2)[OF fl] by simp
    then have "set (ids c) \<inter> set (ids n) = {}" using disj by auto
    then have c2: "?F (rows q c) = rows q c" by (rule rows_filter_disjoint)
    have c1: "remove a c = c" using False by (rule remove_absent)
    have r: "concat (map (rows q) (map (remove a) (filter (\<lambda>c. nid c \<noteq> a) cs)))
           = ?F (concat (map (rows q) cs))"
      by (rule Cons.IH[OF dc fl ih3])
    show ?thesis using na c1 c2 r by simp
  qed
qed

lemma remove_rows:
  "distinct (ids t) \<Longrightarrow> findNode t a = Some n \<Longrightarrow> nid t \<noteq> a \<Longrightarrow>
     rows p (remove a t) = filter (\<lambda>r. rowId r \<notin> set (ids n)) (rows p t)"
proof (induction t arbitrary: p)
  case (Node i nm c x y cs)
  have ia: "i \<noteq> a" using Node.prems(3) by simp
  have dc: "distinct (concat (map ids cs))" and inot: "i \<notin> set (concat (map ids cs))"
    using Node.prems(1) by auto
  have fl: "findNode_list cs a = Some n" using Node.prems(2) ia by simp
  have "set (ids n) \<subseteq> set (concat (map ids cs))" using findNode_Some(2)[OF fl] by simp
  then have root: "i \<notin> set (ids n)" using inot by auto
  have ih: "\<forall>k \<in> set cs. nid k \<noteq> a \<longrightarrow> findNode k a = Some n \<longrightarrow>
      rows (Some i) (remove a k) = filter (\<lambda>r. rowId r \<notin> set (ids n)) (rows (Some i) k)"
  proof (intro ballI impI)
    fix k assume k: "k \<in> set cs" "nid k \<noteq> a" "findNode k a = Some n"
    have "distinct (ids k)" using dc k(1) by (auto simp: distinct_concat_iff)
    from Node.IH[OF k(1) this k(3) k(2)] show "rows (Some i) (remove a k) = filter (\<lambda>r. rowId r \<notin> set (ids n)) (rows (Some i) k)" .
  qed
  from remove_rows_list[OF dc fl ih]
  show ?case using root ia by simp
qed

lemma self_in_nodes [simp]: "t \<in> set (nodes t)"
  by (cases t) simp

lemma ids_nodes: "map nid (nodes t) = ids t"
proof (induction t)
  case (Node i nm c x y cs)
  have "map nid (concat (map nodes cs)) = concat (map ids cs)"
    using Node.IH by (induction cs) auto
  then show ?case by simp
qed

lemma nodes_ids_subset: "n \<in> set (nodes t) \<Longrightarrow> set (ids n) \<subseteq> set (ids t)"
proof (induction t)
  case (Node i nm c x y cs)
  then show ?case by (auto split: if_splits)
qed

lemma findNode_in_nodes:
  "findNode t a = Some n \<Longrightarrow> n \<in> set (nodes t)"
  "findNode_list cs a = Some n \<Longrightarrow> n \<in> set (concat (map nodes cs))"
  by (induction t a and cs a rule: findNode_findNode_list.induct)
     (auto split: option.splits if_splits)

lemma findNode_unique:
  assumes "distinct (ids t)" "n \<in> set (nodes t)"
  shows "findNode t (nid n) = Some n"
proof -
  have "nid n \<in> set (ids t)" using assms(2) ids_nodes[of t] by (metis image_eqI set_map)
  then obtain n' where f: "findNode t (nid n) = Some n'"
    using findNode_None_iff(1)[of t "nid n"] by (cases "findNode t (nid n)") auto
  have "n' \<in> set (nodes t)" "nid n' = nid n"
    using findNode_in_nodes(1)[OF f] findNode_Some(1)[OF f] by auto
  moreover have "inj_on nid (set (nodes t))"
    using assms(1) ids_nodes[of t] by (metis distinct_map)
  ultimately have "n' = n" using assms(2) by (auto dest: inj_onD)
  then show ?thesis using f by simp
qed

lemma nodes_distinct: "distinct (ids t) \<Longrightarrow> n \<in> set (nodes t) \<Longrightarrow> distinct (ids n)"
proof (induction t)
  case (Node i nm c x y cs)
  show ?case
  proof (cases "n = Node i nm c x y cs")
    case True then show ?thesis using Node.prems(1) by simp
  next
    case False
    then obtain k where k: "k \<in> set cs" "n \<in> set (nodes k)" using Node.prems(2) by auto
    have "distinct (ids k)" using Node.prems(1) k(1) by (auto simp: distinct_concat_iff)
    from Node.IH[OF k(1) this k(2)] show ?thesis .
  qed
qed

lemma remove_no_id: "nid t \<noteq> a \<Longrightarrow> a \<notin> set (ids (remove a t))"
proof (induction t)
  case (Node i nm c x y cs)
  have "\<forall>k \<in> set (filter (\<lambda>c. nid c \<noteq> a) cs). a \<notin> set (ids (remove a k))"
    using Node.IH by auto
  then show ?case using Node.prems by auto
qed

lemma ids_remove:
  assumes "distinct (ids t)" "findNode t a = Some n" "nid t \<noteq> a"
  shows "ids (remove a t) = filter (\<lambda>i. i \<notin> set (ids n)) (ids t)"
proof -
  have "ids (remove a t) = map rowId (rows None (remove a t))" by (simp add: rows_ids)
  also have "\<dots> = map rowId (filter (\<lambda>r. rowId r \<notin> set (ids n)) (rows None t))"
    using remove_rows[OF assms] by simp
  also have "\<dots> = filter (\<lambda>i. i \<notin> set (ids n)) (map rowId (rows None t))"
    by (simp add: filter_map o_def)
  finally show ?thesis by (simp add: rows_ids)
qed

lemma reattach_absent: "a \<notin> set (ids t) \<Longrightarrow> reattach a m t = t"
proof (induction t)
  case (Node i nm c x y cs)
  have "map (reattach a m) cs = cs"
    using Node by (intro map_idI) auto
  moreover have "i \<noteq> a" using Node.prems by auto
  ultimately show ?case by simp
qed

lemma nid_reattach [simp]: "nid (reattach a m t) = nid t"
  by (cases t) simp

lemma ids_reattach:
  "distinct (ids t) \<Longrightarrow> a \<in> set (ids t) \<Longrightarrow> mset (ids (reattach a m t)) = mset (ids t) + mset (ids m)"
proof (induction t)
  case (Node i nm c x y cs)
  have dc: "distinct (concat (map ids cs))" and inot: "i \<notin> set (concat (map ids cs))"
    using Node.prems(1) by auto
  show ?case
  proof (cases "i = a")
    case True
    then have "a \<notin> set (concat (map ids cs))" using inot by simp
    then have "map (reattach a m) cs = cs" by (intro map_idI reattach_absent) auto
    then show ?thesis using True by simp
  next
    case False
    then have ain: "a \<in> set (concat (map ids cs))" using Node.prems(2) by simp
    have "mset (concat (map ids (map (reattach a m) cs))) = mset (concat (map ids cs)) + mset (ids m)"
      using dc ain Node.IH
    proof (induction cs)
      case Nil then show ?case by simp
    next
      case (Cons k ks)
      have dk: "distinct (ids k)" "distinct (concat (map ids ks))"
        and disj: "set (ids k) \<inter> set (concat (map ids ks)) = {}"
        using Cons.prems(1) by auto
      show ?case
      proof (cases "a \<in> set (ids k)")
        case True
        then have "a \<notin> set (concat (map ids ks))" using disj by auto
        then have "map (reattach a m) ks = ks" by (intro map_idI reattach_absent) auto
        moreover have "mset (ids (reattach a m k)) = mset (ids k) + mset (ids m)"
          using Cons.prems(3)[of k] dk(1) True by simp
        ultimately show ?thesis by simp
      next
        case False
        then have "a \<in> set (concat (map ids ks))" using Cons.prems(2) by auto
        then have "mset (concat (map ids (map (reattach a m) ks))) = mset (concat (map ids ks)) + mset (ids m)"
          using Cons.IH[OF dk(2)] Cons.prems(3) by simp
        moreover have "reattach a m k = k" using False by (rule reattach_absent)
        ultimately show ?thesis by simp
      qed
    qed
    then show ?thesis using False by simp
  qed
qed


lemma removed_in_nodes: "n \<in> set (removed a t) \<Longrightarrow> n \<in> set (nodes t) \<and> nid n = a"
proof (induction t)
  case (Node i nm c x y cs)
  from Node.prems consider (here) "n \<in> set cs" "nid n = a"
    | (below) k where "k \<in> set cs" "n \<in> set (removed a k)" by auto
  then show ?case
  proof cases
    case here
    have "\<exists>k \<in> set cs. n \<in> set (nodes k)" using here(1) self_in_nodes by blast
    then show ?thesis using here(2) by simp
  next
    case below
    then show ?thesis using Node.IH[OF below] by auto
  qed
qed

lemma removed_nonempty:
  "a \<in> set (ids t) \<Longrightarrow> nid t \<noteq> a \<Longrightarrow> removed a t \<noteq> []"
proof (induction t)
  case (Node i nm c x y cs)
  then obtain k where k: "k \<in> set cs" "a \<in> set (ids k)" by auto
  show ?case
  proof (cases "\<exists>j \<in> set cs. nid j = a")
    case True
    then have "filter (\<lambda>c. nid c = a) cs \<noteq> []" by (auto simp: filter_empty_conv)
    then show ?thesis by simp
  next
    case False
    then have "nid k \<noteq> a" using k(1) by auto
    then have "removed a k \<noteq> []" using Node.IH[OF k(1) k(2)] by simp
    moreover have "k \<in> set (filter (\<lambda>c. nid c \<noteq> a) cs)" using k(1) \<open>nid k \<noteq> a\<close> by simp
    ultimately show ?thesis by (simp del: set_filter) metis
  qed
qed

lemma moved_of_unique:
  assumes "distinct (ids t)" "findNode t a = Some m" "nid t \<noteq> a"
  shows "moved_of a t = Some m"
proof -
  have "a \<in> set (ids t)" using assms(2) findNode_None_iff(1)[of t a] by auto
  then have ne: "removed a t \<noteq> []" using assms(3) by (rule removed_nonempty)
  then have "last (removed a t) \<in> set (removed a t)" by simp
  then have l: "last (removed a t) \<in> set (nodes t)" "nid (last (removed a t)) = a"
    using removed_in_nodes by auto
  have "findNode t a = Some (last (removed a t))"
    using findNode_unique[OF assms(1) l(1)] l(2) by simp
  then have "last (removed a t) = m" using assms(2) by simp
  then show ?thesis using ne by (cases "removed a t") (auto simp: moved_of_def)
qed

lemma remove_reattach:
  "nid m = a \<Longrightarrow> a \<notin> set (ids w) \<Longrightarrow> remove a (reattach p m w) = w"
proof (induction w)
  case (Node i nm c x y cs)
  have keep: "\<forall>k \<in> set cs. nid k \<noteq> a" using Node.prems(2) nid_in_ids by fastforce
  then have f: "filter (\<lambda>c. nid c \<noteq> a) (map (reattach p m) cs) = map (reattach p m) cs"
    by (simp add: filter_id_conv)
  have "map (remove a) (map (reattach p m) cs) = cs"
    using Node by (simp add: map_idI)
  then show ?case using f Node.prems(1) by simp
qed

lemma moved_in_reattach: "p \<in> set (ids w) \<Longrightarrow> m \<in> set (nodes (reattach p m w))"
proof (induction w)
  case (Node i nm c x y cs)
  then show ?case by (cases "i = p") auto
qed

lemma parent_in_reattach:
  "distinct (ids w) \<Longrightarrow> P \<in> set (nodes w) \<Longrightarrow> nid P = p \<Longrightarrow>
   Node p (name P) (collapsed P) (px P) (py P) (children P @ [m]) \<in> set (nodes (reattach p m w))"
proof (induction w)
  case (Node i nm c x y cs)
  have inot: "i \<notin> set (concat (map ids cs))" using Node.prems(1) by auto
  show ?case
  proof (cases "P = Node i nm c x y cs")
    case True
    then have ip: "i = p" using Node.prems(3) by simp
    then have "p \<notin> set (concat (map ids cs))" using inot by simp
    then have "map (reattach p m) cs = cs" by (intro map_idI reattach_absent) auto
    then show ?thesis using True ip by simp
  next
    case False
    then obtain k where k: "k \<in> set cs" "P \<in> set (nodes k)" using Node.prems(2) by auto
    have "distinct (ids k)" using Node.prems(1) k(1) by (auto simp: distinct_concat_iff)
    from Node.IH[OF k(1) this k(2) Node.prems(3)] k(1)
    show ?thesis by auto
  qed
qed

lemma mset_ids_split:
  assumes "distinct (ids t)" "n \<in> set (nodes t)"
  shows "mset (filter (\<lambda>i. i \<notin> set (ids n)) (ids t)) + mset (ids n) = mset (ids t)"
proof -
  have dn: "distinct (ids n)" using assms by (rule nodes_distinct)
  have sub: "set (ids n) \<subseteq> set (ids t)" using assms(2) by (rule nodes_ids_subset)
  have "set (filter (\<lambda>i. i \<in> set (ids n)) (ids t)) = set (ids n)" using sub by auto
  moreover have "distinct (filter (\<lambda>i. i \<in> set (ids n)) (ids t))" using assms(1) by simp
  ultimately have "mset (filter (\<lambda>i. i \<in> set (ids n)) (ids t)) = mset (ids n)"
    using dn set_eq_iff_mset_eq_distinct[of "filter (\<lambda>i. i \<in> set (ids n)) (ids t)" "ids n"]
    by blast
  moreover have "mset (filter (\<lambda>i. i \<notin> set (ids n)) (ids t))
      + mset (filter (\<lambda>i. i \<in> set (ids n)) (ids t)) = mset (ids t)"
    by (induction "ids t" arbitrary: t) simp_all
  ultimately show ?thesis by simp
qed

text \<open>
  A tree with distinct ids is determined by its rows: two such trees with the same rows are
  the same tree. So a statement about the rows of a result pins the result down.
\<close>

lemma rows_nonempty [simp]: "rows q k \<noteq> []"
  by (cases k) simp

lemma hd_rows [simp]: "fst (hd (rows q k)) = q"
  by (cases k) simp

lemma rows_parents:
  "r \<in> set (tl (rows q k)) \<Longrightarrow> \<exists>j \<in> set (ids k). fst r = Some j"
proof (induction k arbitrary: q)
  case (Node i nm c x y cs)
  then obtain k where k: "k \<in> set cs" "r \<in> set (rows (Some i) k)" by auto
  obtain h T where hT: "rows (Some i) k = h # T" by (cases "rows (Some i) k") auto
  have h: "fst h = Some i" using hd_rows[of "Some i" k] hT by simp
  show ?case
  proof (cases "r = h")
    case True
    then show ?thesis using h by simp
  next
    case False
    then have "r \<in> set (tl (rows (Some i) k))" using k(2) hT by simp
    from Node.IH[OF k(1) this] k(1) show ?thesis by auto
  qed
qed

lemma concat_rows_start:
  "concat (map (rows (Some i)) cs) = [] \<or> fst (hd (concat (map (rows (Some i)) cs))) = Some i"
  by (cases cs) simp_all

lemma rows_prefix:
  assumes "i \<notin> set (ids k)" and "R = [] \<or> fst (hd R) = Some i"
  shows "rows (Some i) k
       = hd (rows (Some i) k @ R) # takeWhile (\<lambda>r. fst r \<noteq> Some i) (tl (rows (Some i) k @ R))"
proof -
  obtain h T where hT: "rows (Some i) k = h # T" by (cases "rows (Some i) k") auto
  have all: "\<forall>r \<in> set T. fst r \<noteq> Some i"
  proof
    fix r assume "r \<in> set T"
    then have "r \<in> set (tl (rows (Some i) k))" using hT by simp
    then obtain j where "j \<in> set (ids k)" "fst r = Some j" using rows_parents by blast
    then show "fst r \<noteq> Some i" using assms(1) by auto
  qed
  have "takeWhile (\<lambda>r. fst r \<noteq> Some i) (T @ R) = T"
  proof (cases R)
    case Nil
    then show ?thesis using all by simp
  next
    case (Cons r R')
    then have "\<not> fst r \<noteq> Some i" using assms(2) by simp
    then show ?thesis using all Cons by (simp add: takeWhile_tail)
  qed
  then show ?thesis by (simp add: hT)
qed

lemma rows_children_inject:
  assumes "\<forall>k \<in> set cs. \<forall>k' q q'. distinct (ids k) \<longrightarrow> distinct (ids k') \<longrightarrow>
             rows q k = rows q' k' \<longrightarrow> k = k'"
    and "\<forall>k \<in> set cs. distinct (ids k) \<and> i \<notin> set (ids k)"
    and "\<forall>k \<in> set cs'. distinct (ids k) \<and> i \<notin> set (ids k)"
    and "concat (map (rows (Some i)) cs) = concat (map (rows (Some i)) cs')"
  shows "cs = cs'"
  using assms
proof (induction cs arbitrary: cs')
  case Nil
  then show ?case by (cases cs') simp_all
next
  case (Cons c cs1)
  let ?R = "concat (map (rows (Some i)) cs1)"
  obtain c' cs1' where cs': "cs' = c' # cs1'"
    using Cons.prems(4) by (cases cs') simp_all
  let ?R' = "concat (map (rows (Some i)) cs1')"
  have L: "rows (Some i) c @ ?R = rows (Some i) c' @ ?R'" using Cons.prems(4) cs' by simp
  have ic: "i \<notin> set (ids c)" "i \<notin> set (ids c')" "distinct (ids c)" "distinct (ids c')"
    using Cons.prems(2,3) cs' by auto
  have e: "rows (Some i) c = rows (Some i) c'"
    using rows_prefix[OF ic(1) concat_rows_start[of i cs1]]
          rows_prefix[OF ic(2) concat_rows_start[of i cs1']] L by simp
  have cc: "c = c'" using Cons.prems(1) ic(3,4) e by (simp del: ex_simps) blast
  have RR: "?R = ?R'" using L e by simp
  have "cs1 = cs1'"
  proof (rule Cons.IH)
    show "\<forall>k \<in> set cs1. \<forall>k' q q'. distinct (ids k) \<longrightarrow> distinct (ids k') \<longrightarrow>
             rows q k = rows q' k' \<longrightarrow> k = k'"
      using Cons.prems(1) by simp
    show "\<forall>k \<in> set cs1. distinct (ids k) \<and> i \<notin> set (ids k)" using Cons.prems(2) by simp
    show "\<forall>k \<in> set cs1'. distinct (ids k) \<and> i \<notin> set (ids k)" using Cons.prems(3) cs' by simp
    show "?R = ?R'" by (rule RR)
  qed
  then show ?case using cc cs' by simp
qed

lemma rows_inject:
  "distinct (ids t) \<Longrightarrow> distinct (ids t') \<Longrightarrow> rows p t = rows p' t' \<Longrightarrow> t = t'"
proof (induction t arbitrary: t' p p')
  case (Node i nm c x y cs)
  obtain i' nm' c' x' y' cs' where t': "t' = Node i' nm' c' x' y' cs'" by (cases t') auto
  have hd: "i' = i" "nm' = nm" "c' = c" "x' = x" "y' = y"
    and tl: "concat (map (rows (Some i)) cs) = concat (map (rows (Some i)) cs')"
    using Node.prems(3) t' by auto
  have a: "\<forall>k \<in> set cs. distinct (ids k) \<and> i \<notin> set (ids k)"
    using Node.prems(1) by (auto simp: distinct_concat_iff)
  have b: "\<forall>k \<in> set cs'. distinct (ids k) \<and> i \<notin> set (ids k)"
    using Node.prems(2) t' hd(1) by (auto simp: distinct_concat_iff)
  have ih: "\<forall>k \<in> set cs. \<forall>k' q q'. distinct (ids k) \<longrightarrow> distinct (ids k') \<longrightarrow>
             rows q k = rows q' k' \<longrightarrow> k = k'"
    using Node.IH by blast
  have "cs = cs'" using ih a b tl by (rule rows_children_inject)
  then show ?case using t' hd by simp
qed

section \<open>C2: a drag is one undo step\<close>

lemma moveNode_fields [simp]:
  "undoStack (moveNode a x y s) = undoStack s"
  "redoStack (moveNode a x y s) = redoStack s"
  "selectedId (moveNode a x y s) = selectedId s"
  "preDragSnapshot (moveNode a x y s) =
     (case preDragSnapshot s of None \<Rightarrow> Some (snapshot s) | Some p \<Rightarrow> Some p)"
  by (auto simp: moveNode_def Let_def split: option.splits)

lemma run_moves_dragging:
  "preDragSnapshot s = Some p \<Longrightarrow>
   preDragSnapshot (run gen (dragEvents ms) s) = Some p \<and>
   undoStack (run gen (dragEvents ms) s) = undoStack s"
  by (induction ms arbitrary: s) (auto simp: dragEvents_def step_def)

lemma run_moves_undoStack:
  "undoStack (run gen (dragEvents ms) s) = undoStack s"
  by (induction ms arbitrary: s) (auto simp: dragEvents_def step_def)

lemma run_moves_first:
  assumes "preDragSnapshot s = None" "ms \<noteq> []"
  shows "preDragSnapshot (run gen (dragEvents ms) s) = Some (snapshot s)"
proof -
  obtain m ms' where ms: "ms = m # ms'" using assms(2) by (cases ms) auto
  obtain a x y where m: "m = (a, x, y)" by (cases m) auto
  let ?s1 = "step gen (MoveNode a x y) s"
  have "preDragSnapshot ?s1 = Some (snapshot s)"
    using assms(1) by (simp add: step_def)
  from run_moves_dragging[OF this, of gen ms']
  show ?thesis by (simp add: ms m dragEvents_def)
qed

text \<open>
  C2. From a state with no drag in progress, a gesture of \<open>N \<ge> 1\<close> \<open>moveNode\<close> calls followed
  by \<open>moveCommit\<close> (each followed by the render effect) leaves the undo stack equal to the old
  stack with one entry appended, the snapshot of the state before the first \<open>moveNode\<close>
  (\<open>cap\<close> keeps the last ten, as for every push). After any number of the \<open>moveNode\<close> calls
  alone the undo stack is still the old one, and the commit ends the drag.
\<close>

theorem drag_gesture_one_entry:
  assumes "preDragSnapshot s = None" and "ms \<noteq> []"
  shows "undoStack (run gen (dragEvents ms @ [MoveCommit]) s) = cap (undoStack s @ [snapshot s])
       \<and> preDragSnapshot (run gen (dragEvents ms @ [MoveCommit]) s) = None
       \<and> (\<forall>j \<le> length ms. undoStack (run gen (dragEvents (take j ms)) s) = undoStack s)"
proof -
  let ?s' = "run gen (dragEvents ms) s"
  have pre: "preDragSnapshot ?s' = Some (snapshot s)"
    using assms by (rule run_moves_first)
  have u: "undoStack ?s' = undoStack s" by (rule run_moves_undoStack)
  show ?thesis
    using pre u by (simp add: run_append step_def moveCommit_def run_moves_undoStack)
qed

theorem drag_gesture_one_entry_witness:
  "preDragSnapshot demo_state = None
   \<and> [(''a'', 10::real, 20::real), (''a'', 30, 40)] \<noteq> []
   \<and> undoStack (run demo_gen (dragEvents [(''a'', 10, 20), (''a'', 30, 40)] @ [MoveCommit])
        demo_state) = [(demo_tree, Some ''r'')]"
  using drag_gesture_one_entry[of demo_state "[(''a'', 10, 20), (''a'', 30, 40)]" demo_gen]
  by (simp add: demo_state_def cap_def snapshot_def)

section \<open>C1: undo and redo\<close>

lemma step_Undo_empty: "undoStack s = [] \<Longrightarrow> selectedExists s \<Longrightarrow> step gen Undo s = s"
  by (simp add: step_def undo_def ensureSelected_id)

lemma step_Redo_empty: "redoStack s = [] \<Longrightarrow> selectedExists s \<Longrightarrow> step gen Redo s = s"
  by (simp add: step_def redo_def ensureSelected_id)

lemma step_Undo_stacks:
  "undoStack s \<noteq> [] \<Longrightarrow>
     undoStack (step gen Undo s) = butlast (undoStack s) \<and>
     redoStack (step gen Undo s) = redoStack s @ [snapshot s]"
  by (simp add: step_def undo_def restore_def)

lemma step_Redo_restores:
  assumes "redoStack s = rs @ [(t, sel)]"
    and "selectedExists (s\<lparr>tree := t, selectedId := sel\<rparr>)"
  shows "tree (step gen Redo s) = t \<and> selectedId (step gen Redo s) = sel \<and>
         redoStack (step gen Redo s) = rs \<and>
         undoStack (step gen Redo s) = undoStack s @ [snapshot s]"
proof -
  have "selectedExists (redo s)"
    using assms by (simp add: redo_def restore_def selectedExists_def split: option.splits)
  then have "step gen Redo s = redo s"
    by (simp add: step_def ensureSelected_id)
  then show ?thesis using assms(1) by (simp add: redo_def restore_def)
qed

lemma undo_redo_within:
  "selectedExists s \<Longrightarrow> j \<le> length (undoStack s) \<Longrightarrow>
   tree ((step gen Redo ^^ j) ((step gen Undo ^^ j) s)) = tree s \<and>
   selectedId ((step gen Redo ^^ j) ((step gen Undo ^^ j) s)) = selectedId s \<and>
   redoStack ((step gen Redo ^^ j) ((step gen Undo ^^ j) s)) = redoStack s \<and>
   length (undoStack ((step gen Redo ^^ j) ((step gen Undo ^^ j) s))) = length (undoStack s)"
proof (induction j arbitrary: s)
  case 0
  then show ?case by simp
next
  case (Suc j)
  let ?s1 = "step gen Undo s"
  let ?s2 = "(step gen Redo ^^ j) ((step gen Undo ^^ j) ?s1)"
  have ne: "undoStack s \<noteq> []" using Suc.prems(2) by auto
  have st: "undoStack ?s1 = butlast (undoStack s)" "redoStack ?s1 = redoStack s @ [snapshot s]"
    using step_Undo_stacks[OF ne] by auto
  have "j \<le> length (undoStack ?s1)" using Suc.prems(2) st by simp
  from Suc.IH[OF selectedExists_step this]
  have ih: "redoStack ?s2 = redoStack s @ [(tree s, selectedId s)]"
       "length (undoStack ?s2) = length (undoStack ?s1)"
    using st by (simp_all add: snapshot_def)
  have ok: "selectedExists (?s2\<lparr>tree := tree s, selectedId := selectedId s\<rparr>)"
    using Suc.prems(1) by (simp add: selectedExists_def split: option.splits)
  have unf: "(step gen Redo ^^ Suc j) ((step gen Undo ^^ Suc j) s) = step gen Redo ?s2"
    by (simp add: funpow_swap1)
  show ?case
    unfolding unf using step_Redo_restores[OF ih(1) ok] ih(2) st(1) ne by simp
qed

lemma funpow_fix: "f x = x \<Longrightarrow> (f ^^ n) x = x"
  by (induction n) auto

lemma step_Undo_length: "length (undoStack (step gen Undo s)) = length (undoStack s) - 1"
  by (simp add: step_def undo_def restore_def)

lemma undo_exhausts:
  "length (undoStack ((step gen Undo ^^ j) s)) = length (undoStack s) - j"
  by (induction j) (simp_all add: step_Undo_length)

lemma undo_redo_restores:
  assumes ok: "selectedExists s" and c: "redoStack s = [] \<or> k \<le> length (undoStack s)"
  shows "tree ((step gen Redo ^^ k) ((step gen Undo ^^ k) s)) = tree s \<and>
         selectedId ((step gen Redo ^^ k) ((step gen Undo ^^ k) s)) = selectedId s"
proof (cases "k \<le> length (undoStack s)")
  case True
  from undo_redo_within[OF ok True] show ?thesis by simp
next
  case False
  then have r: "redoStack s = []" using c by auto
  define j where "j = length (undoStack s)"
  define d where "d = k - j"
  have k: "k = d + j" using False by (simp add: d_def j_def)
  let ?u = "(step gen Undo ^^ j) s"
  have okU: "selectedExists ?u"
    by (cases j) (simp_all add: ok)
  have eU: "undoStack ?u = []"
    using undo_exhausts[where gen=gen and j=j and s=s] by (simp add: j_def)
  have fixU: "(step gen Undo ^^ d) ?u = ?u"
    by (rule funpow_fix) (rule step_Undo_empty[OF eU okU])
  let ?r = "(step gen Redo ^^ j) ?u"
  have w: "tree ?r = tree s" "selectedId ?r = selectedId s" "redoStack ?r = []"
    using undo_redo_within[OF ok, where j=j and gen=gen] r by (simp_all add: j_def)
  have okR: "selectedExists ?r"
    using ok w by (simp add: selectedExists_def split: option.splits)
  have fixR: "(step gen Redo ^^ d) ?r = ?r"
    by (rule funpow_fix) (rule step_Redo_empty[OF w(3) okR])
  have "(step gen Redo ^^ k) ((step gen Undo ^^ k) s) = (step gen Redo ^^ d) ?r"
    unfolding k by (simp only: funpow_add o_apply fixU)
  then show ?thesis using fixR w by simp
qed


lemma pushUndoUnlessDragging_fields [simp]:
  "tree (pushUndoUnlessDragging s) = tree s"
  "selectedId (pushUndoUnlessDragging s) = selectedId s"
  "preDragSnapshot (pushUndoUnlessDragging s) = preDragSnapshot s"
  "nanoidCalls (pushUndoUnlessDragging s) = nanoidCalls s"
  "redoStack (pushUndoUnlessDragging s) = (if preDragSnapshot s = None then [] else redoStack s)"
  "undoStack (pushUndoUnlessDragging s) =
     (if preDragSnapshot s = None then cap (undoStack s @ [snapshot s]) else undoStack s)"
  by (simp_all add: pushUndoUnlessDragging_def pushUndo_def)

lemma reparent_history:
  "preDragSnapshot (stateAfter (reparent a b s)) = preDragSnapshot s"
  "redoStack (stateAfter (reparent a b s)) = redoStack s \<or>
   redoStack (stateAfter (reparent a b s)) = redoStack (pushUndoUnlessDragging s)"
  by (auto simp: reparent_def Let_def split: option.splits)

lemma addChild_history [simp]:
  "preDragSnapshot (addChild gen a s) = preDragSnapshot s"
  "redoStack (addChild gen a s) = redoStack (pushUndoUnlessDragging s)"
  "undoStack (addChild gen a s) = undoStack (pushUndoUnlessDragging s)"
  by (simp_all add: addChild_def Let_def split: prod.splits)

lemma deleteNode_history [simp]:
  "preDragSnapshot (deleteNode a s) = preDragSnapshot s"
  "redoStack (deleteNode a s) =
     (if nid (tree s) = a then redoStack s else redoStack (pushUndoUnlessDragging s))"
  "undoStack (deleteNode a s) =
     (if nid (tree s) = a then undoStack s else undoStack (pushUndoUnlessDragging s))"
  by (simp_all add: deleteNode_def Let_def)

lemma renameNode_history [simp]:
  "preDragSnapshot (renameNode a nm s) = preDragSnapshot s"
  "redoStack (renameNode a nm s) = redoStack (pushUndoUnlessDragging s)"
  "undoStack (renameNode a nm s) = undoStack (pushUndoUnlessDragging s)"
  "selectedId (renameNode a nm s) = selectedId s"
  by (simp_all add: renameNode_def Let_def)

lemma toggleCollapse_history [simp]:
  "preDragSnapshot (toggleCollapse a s) = preDragSnapshot s"
  "redoStack (toggleCollapse a s) = redoStack (pushUndoUnlessDragging s)"
  "undoStack (toggleCollapse a s) = undoStack (pushUndoUnlessDragging s)"
  "selectedId (toggleCollapse a s) = selectedId s"
  by (simp_all add: toggleCollapse_def Let_def)

lemma reparent_redo_empty:
  "redoStack s = [] \<Longrightarrow> redoStack (stateAfter (reparent a b s)) = []"
  using reparent_history(2)[of a b s] by auto

lemma moveCommit_history [simp]:
  "preDragSnapshot (moveCommit s) = None"
  "redoStack (moveCommit s) = (if preDragSnapshot s = None then redoStack s else [])"
  by (auto simp: moveCommit_def split: option.splits)

lemma run_moves_redo_empty:
  "redoStack s = [] \<Longrightarrow> redoStack (run gen (dragEvents ms) s) = []"
  by (induction ms arbitrary: s) (auto simp: dragEvents_def step_def)

lemma edit_preDrag:
  "preDragSnapshot s = None \<Longrightarrow> preDragSnapshot (run gen (eventsOf e) s) = None"
  by (cases e) (auto simp: step_def reparent_history run_append)

lemma edit_redo_empty:
  "redoStack s = [] \<Longrightarrow> redoStack (run gen (eventsOf e) s) = []"
  by (cases e) (auto simp: step_def reparent_redo_empty run_append run_moves_redo_empty)

lemma accepted_redo_empty:
  assumes "preDragSnapshot s = None" "accepted e s"
  shows "redoStack (run gen (eventsOf e) s) = []"
proof (cases e)
  case (EditReparent a b)
  then show ?thesis using assms
    by (auto simp: step_def reparent_def Let_def split: option.splits)
next
  case (EditDrag ms)
  then have "ms \<noteq> []" using assms by simp
  from run_moves_first[OF assms(1) this]
  show ?thesis by (simp add: EditDrag run_append step_def)
qed (use assms in \<open>auto simp: step_def\<close>)

lemma runEdits_redo_empty:
  "preDragSnapshot s = None \<Longrightarrow> redoStack s = [] \<or> someAccepted gen es s \<Longrightarrow>
     redoStack (runEdits gen es s) = []"
proof (induction es arbitrary: s)
  case Nil
  then show ?case by simp
next
  case (Cons e es)
  let ?s1 = "run gen (eventsOf e) s"
  have p: "preDragSnapshot ?s1 = None" using Cons.prems(1) by (rule edit_preDrag)
  have "redoStack ?s1 = [] \<or> someAccepted gen es ?s1"
    using Cons.prems edit_redo_empty[of s gen e] accepted_redo_empty[of s e gen]
    by (auto split: if_splits)
  from Cons.IH[OF p this] show ?case by simp
qed

lemma run_selectedExists: "evs \<noteq> [] \<Longrightarrow> selectedExists (run gen evs s)"
proof (induction evs arbitrary: s)
  case Nil then show ?case by simp
next
  case (Cons e evs) then show ?case by (cases evs) auto
qed

lemma runEdits_selectedExists: "es \<noteq> [] \<Longrightarrow> selectedExists (runEdits gen es s)"
proof (induction es arbitrary: s)
  case Nil then show ?case by simp
next
  case (Cons e es)
  have "eventsOf e \<noteq> []" by (cases e) auto
  then have "selectedExists (run gen (eventsOf e) s)" by (rule run_selectedExists)
  then show ?case using Cons.IH[of "run gen (eventsOf e) s"] by (cases es) auto
qed

text \<open>
  C1 (as amended). Start from a state with no drag in progress and run any sequence of
  \<open>k\<close> edits. If the redo stack was empty at the start, or at least one of the edits is
  accepted (an accepted edit clears the redo stack), then \<open>k\<close> undos followed by \<open>k\<close> redos
  restore the tree and the selection that the edits left. No bound on \<open>k\<close> is needed: undos
  beyond the history held are no-ops, and then so are the redos beyond those undone.
\<close>

theorem undo_redo_inverse:
  assumes "preDragSnapshot s = None" and "redoStack s = [] \<or> someAccepted gen es s"
  shows "tree ((step gen Redo ^^ length es) ((step gen Undo ^^ length es) (runEdits gen es s)))
           = tree (runEdits gen es s)
       \<and> selectedId ((step gen Redo ^^ length es) ((step gen Undo ^^ length es) (runEdits gen es s)))
           = selectedId (runEdits gen es s)"
proof (cases "es = []")
  case True
  then show ?thesis by simp
next
  case False
  have ok: "selectedExists (runEdits gen es s)" using False by (rule runEdits_selectedExists)
  have "redoStack (runEdits gen es s) = []" using assms by (rule runEdits_redo_empty)
  then show ?thesis using undo_redo_restores[OF ok] by blast
qed

theorem undo_redo_inverse_witness:
  "preDragSnapshot demo_state = None
   \<and> someAccepted demo_gen [EditAddChild ''a'', EditDeleteNode ''c''] demo_state
   \<and> tree ((step demo_gen Redo ^^ 2) ((step demo_gen Undo ^^ 2)
        (runEdits demo_gen [EditAddChild ''a'', EditDeleteNode ''c''] demo_state)))
      = Node ''r'' ''Root'' None None None
         [Node ''a'' ''A'' None None None
            [Node ''b'' ''B'' None None None [], Node ''n'' ''New Node'' None None None []]]"
  using undo_redo_inverse[of demo_state demo_gen "[EditAddChild ''a'', EditDeleteNode ''c'']"]
  by (simp add: demo_state_def demo_tree_def demo_gen_def step_def addChild_def deleteNode_def
      ensureSelected_def Let_def undo_def redo_def restore_def snapshot_def cap_def
      pushUndoUnlessDragging_def pushUndo_def numeral_2_eq_2)

text \<open>
  C1 as stated fails when every edit is rejected: a rejected edit pushes nothing and leaves
  the redo stack alone. In \<open>demo_redo_state\<close> (one edit, undone) the edit
  \<open>reparent(''r'', ''a'')\<close> of the root is rejected; the one undo finds an empty stack, and
  the one redo then replays the edit that had been undone before.
\<close>

theorem undo_redo_rejected_edit_counterexample:
  "length [EditReparent ''r'' ''a''] \<le> 10 \<and>
   tree ((step demo_gen Redo ^^ length [EditReparent ''r'' ''a''])
          ((step demo_gen Undo ^^ length [EditReparent ''r'' ''a''])
             (runEdits demo_gen [EditReparent ''r'' ''a''] demo_redo_state)))
     \<noteq> tree (runEdits demo_gen [EditReparent ''r'' ''a''] demo_redo_state)"
  by (simp add: demo_redo_state_def demo_state_def demo_tree_def step_def toggleCollapse_def
      undo_def redo_def restore_def snapshot_def reparent_def ensureSelected_def cap_def
      pushUndoUnlessDragging_def pushUndo_def Let_def)

section \<open>C3: deleteNode\<close>

text \<open>
  C3. In a tree with distinct ids, for a node \<open>n\<close> other than the root, \<open>deleteNode(n.id)\<close>
  leaves exactly the rows of the old tree that do not belong to the subtree of \<open>n\<close>: the
  same nodes in the same order, each with its parent and its fields (and a tree with distinct
  ids is determined by its rows, \<open>rows_inject\<close>). The selection becomes the root's id. \<open>deleteNode\<close> of the root's id changes nothing.
\<close>

theorem deleteNode_removes_subtree:
  assumes "distinct (ids (tree s))" and "findNode (tree s) a = Some n" and "a \<noteq> nid (tree s)"
  shows "rows None (tree (deleteNode a s))
           = filter (\<lambda>r. rowId r \<notin> set (ids n)) (rows None (tree s))
       \<and> distinct (ids (tree (deleteNode a s)))
       \<and> selectedId (deleteNode a s) = Some (nid (tree s))
       \<and> deleteNode (nid (tree s)) s = s"
proof -
  have nr: "nid (tree s) \<noteq> a" using assms(3) by simp
  have t: "tree (deleteNode a s) = remove a (tree s)"
    using nr by (simp add: deleteNode_def Let_def)
  have r: "rows None (remove a (tree s))
      = filter (\<lambda>r. rowId r \<notin> set (ids n)) (rows None (tree s))"
    using assms(1,2) nr by (rule remove_rows)
  have "ids (remove a (tree s)) = filter (\<lambda>i. i \<notin> set (ids n)) (ids (tree s))"
    using assms(1,2) nr by (rule ids_remove)
  then have d: "distinct (ids (remove a (tree s)))" using assms(1) by simp
  have sel: "selectedId (deleteNode a s) = Some (nid (tree s))"
    using nr by (simp add: deleteNode_def Let_def)
  have root: "deleteNode (nid (tree s)) s = s" by (simp add: deleteNode_def)
  show ?thesis using t r d sel root by simp
qed

theorem deleteNode_removes_subtree_witness:
  "distinct (ids (tree demo_state))
   \<and> findNode (tree demo_state) ''a''
        = Some (Node ''a'' ''A'' None None None [Node ''b'' ''B'' None None None []])
   \<and> ''a'' \<noteq> nid (tree demo_state)
   \<and> rows None (tree (deleteNode ''a'' demo_state))
        = [(None, ''r'', ''Root'', None, None, None), (Some ''r'', ''c'', ''C'', None, None, None)]
   \<and> distinct (ids (tree (deleteNode ''a'' demo_state)))
   \<and> selectedId (deleteNode ''a'' demo_state) = Some ''r''"
  using deleteNode_removes_subtree[of demo_state "''a''"
      "Node ''a'' ''A'' None None None [Node ''b'' ''B'' None None None []]"]
  by (simp add: model_defs)

section \<open>C4: reparent\<close>

lemma reparent_success:
  assumes d: "distinct (ids (tree s))"
    and fc: "findNode (tree s) c = Some m"
    and pin: "p \<in> set (ids (tree s))"
    and nr: "c \<noteq> nid (tree s)" and ne: "c \<noteq> p" and nd: "p \<notin> set (ids m)"
  shows "reparent c p s = Returned ((pushUndoUnlessDragging s)
           \<lparr>tree := reattach p m (remove c (tree s)), selectedId := Some c\<rparr>)"
proof -
  have mv: "moved_of c (tree s) = Some m" using d fc nr by (intro moved_of_unique) auto
  show ?thesis using fc nr ne nd mv by (simp add: reparent_def isDesc_iff Let_def)
qed

lemma reattach_remove_shape:
  assumes d: "distinct (ids t)"
    and fc: "findNode t c = Some m"
    and pin: "p \<in> set (ids t)"
    and nr: "c \<noteq> nid t" and nd: "p \<notin> set (ids m)"
  defines "t' \<equiv> reattach p m (remove c t)"
  shows "mset (ids t') = mset (ids t)"
    and "findNode t' c = Some m"
    and "remove c t' = remove c t"
    and "\<exists>P. findNode (remove c t) p = Some P \<and>
           findNode t' p = Some (Node p (name P) (collapsed P) (px P) (py P) (children P @ [m]))"
proof -
  let ?w = "remove c t"
  have nm: "nid m = c" and mn: "m \<in> set (nodes t)"
    using findNode_Some(1)[OF fc] findNode_in_nodes(1)[OF fc] by auto
  have iw: "ids ?w = filter (\<lambda>i. i \<notin> set (ids m)) (ids t)"
    using d fc nr by (intro ids_remove) auto
  have dw: "distinct (ids ?w)" using d iw by simp
  have pw: "p \<in> set (ids ?w)" using pin nd iw by simp
  have cw: "c \<notin> set (ids ?w)" using iw nm nid_in_ids[of m] by auto
  have "mset (ids t') = mset (ids ?w) + mset (ids m)"
    unfolding t'_def using dw pw by (rule ids_reattach)
  also have "\<dots> = mset (ids t)" unfolding iw using d mn by (rule mset_ids_split)
  finally show ms: "mset (ids t') = mset (ids t)" .
  then have dt': "distinct (ids t')" using d by (metis mset_eq_imp_distinct_iff)
  have "m \<in> set (nodes t')" unfolding t'_def using pw by (rule moved_in_reattach)
  from findNode_unique[OF dt' this] show "findNode t' c = Some m" by (simp add: nm)
  show "remove c t' = remove c t" unfolding t'_def using nm cw by (rule remove_reattach)
  obtain P where P: "findNode ?w p = Some P"
    using pw findNode_None_iff(1)[of ?w p] by (cases "findNode ?w p") auto
  have Pn: "P \<in> set (nodes ?w)" "nid P = p"
    using findNode_in_nodes(1)[OF P] findNode_Some(1)[OF P] by auto
  let ?P' = "Node p (name P) (collapsed P) (px P) (py P) (children P @ [m])"
  have "?P' \<in> set (nodes t')" unfolding t'_def using dw Pn by (rule parent_in_reattach)
  from findNode_unique[OF dt' this] have "findNode t' p = Some ?P'" by simp
  then show "\<exists>P. findNode (remove c t) p = Some P \<and>
           findNode t' p = Some (Node p (name P) (collapsed P) (px P) (py P) (children P @ [m]))"
    using P by blast
qed

text \<open>
  C4. In a tree with distinct ids that holds both \<open>childId\<close> and \<open>newParentId\<close>,
  \<open>reparent\<close> returns the state as it was (tree, selection, both stacks) when \<open>childId\<close> is
  the root, equals \<open>newParentId\<close>, or has \<open>newParentId\<close> in its subtree \<open>m\<close>. Otherwise it
  returns a state whose selection is \<open>childId\<close> and whose tree has the same ids as before,
  still holds the subtree \<open>m\<close> unchanged under \<open>childId\<close>, has outside \<open>m\<close> the same rows in
  the same order as before, and has \<open>m\<close> as the last child of \<open>newParentId\<close>.
\<close>

theorem reparent_rejects_or_moves:
  assumes "distinct (ids (tree s))"
    and "findNode (tree s) c = Some m"
    and "p \<in> set (ids (tree s))"
  shows "(if c = nid (tree s) \<or> c = p \<or> p \<in> set (ids m)
          then reparent c p s = Returned s
          else \<exists>s'. reparent c p s = Returned s'
             \<and> selectedId s' = Some c
             \<and> mset (ids (tree s')) = mset (ids (tree s))
             \<and> findNode (tree s') c = Some m
             \<and> filter (\<lambda>r. rowId r \<notin> set (ids m)) (rows None (tree s'))
                 = filter (\<lambda>r. rowId r \<notin> set (ids m)) (rows None (tree s))
             \<and> (\<exists>P'. findNode (tree s') p = Some P' \<and> children P' \<noteq> []
                    \<and> last (children P') = m))"
proof (cases "c = nid (tree s) \<or> c = p \<or> p \<in> set (ids m)")
  case True
  then show ?thesis using assms(2) by (auto simp: reparent_def isDesc_iff)
next
  case False
  let ?t = "tree s"
  let ?t' = "reattach p m (remove c ?t)"
  let ?s' = "(pushUndoUnlessDragging s)\<lparr>tree := ?t', selectedId := Some c\<rparr>"
  have F: "c \<noteq> nid ?t" "c \<noteq> p" "p \<notin> set (ids m)" using False by auto
  have r: "reparent c p s = Returned ?s'"
    using assms F by (intro reparent_success) auto
  note sh = reattach_remove_shape[OF assms(1,2,3) F(1) F(3)]
  have dt': "distinct (ids ?t')" using sh(1) assms(1) by (metis mset_eq_imp_distinct_iff)
  have "filter (\<lambda>r. rowId r \<notin> set (ids m)) (rows None ?t') = rows None (remove c ?t')"
    using remove_rows[OF dt' sh(2)] F(1) by simp
  also have "\<dots> = rows None (remove c ?t)" using sh(3) by simp
  also have "\<dots> = filter (\<lambda>r. rowId r \<notin> set (ids m)) (rows None ?t)"
    using remove_rows[OF assms(1,2)] F(1) by simp
  finally have rw: "filter (\<lambda>r. rowId r \<notin> set (ids m)) (rows None ?t')
      = filter (\<lambda>r. rowId r \<notin> set (ids m)) (rows None ?t)" .
  obtain P where "findNode ?t' p = Some (Node p (name P) (collapsed P) (px P) (py P) (children P @ [m]))"
    using sh(4) by blast
  then have "\<exists>P'. findNode ?t' p = Some P' \<and> children P' \<noteq> [] \<and> last (children P') = m"
    by simp
  then have "\<exists>s'. reparent c p s = Returned s'
             \<and> selectedId s' = Some c
             \<and> mset (ids (tree s')) = mset (ids (tree s))
             \<and> findNode (tree s') c = Some m
             \<and> filter (\<lambda>r. rowId r \<notin> set (ids m)) (rows None (tree s'))
                 = filter (\<lambda>r. rowId r \<notin> set (ids m)) (rows None (tree s))
             \<and> (\<exists>P'. findNode (tree s') p = Some P' \<and> children P' \<noteq> []
                    \<and> last (children P') = m)"
    using r sh(1,2) rw by simp
  then show ?thesis using False by simp
qed

theorem reparent_rejects_or_moves_witness:
  "distinct (ids (tree demo_state))
   \<and> findNode (tree demo_state) ''b'' = Some (Node ''b'' ''B'' None None None [])
   \<and> ''c'' \<in> set (ids (tree demo_state))
   \<and> (\<exists>s'. reparent ''b'' ''c'' demo_state = Returned s' \<and> selectedId s' = Some ''b''
         \<and> findNode (tree s') ''b'' = Some (Node ''b'' ''B'' None None None []))"
  using reparent_rejects_or_moves[of demo_state "''b''" "Node ''b'' ''B'' None None None []" "''c''"]
  by (simp add: model_defs)

section \<open>C5: reparent onto the current parent\<close>

lemma siblings_disjoint:
  "distinct (concat (map ids cs)) \<Longrightarrow> k \<in> set cs \<Longrightarrow> j \<in> set cs \<Longrightarrow>
     a \<in> set (ids k) \<Longrightarrow> a \<in> set (ids j) \<Longrightarrow> k = j"
  by (induction cs) auto

lemma child_in_nodes: "A \<in> set (nodes t) \<Longrightarrow> B \<in> set (children A) \<Longrightarrow> B \<in> set (nodes t)"
proof (induction t)
  case (Node i nm c x y cs)
  show ?case
  proof (cases "A = Node i nm c x y cs")
    case True
    then have "B \<in> set cs" using Node.prems(2) by simp
    then have "\<exists>k \<in> set cs. B \<in> set (nodes k)" using self_in_nodes by blast
    then show ?thesis by simp
  next
    case False
    then obtain k where k: "k \<in> set cs" "A \<in> set (nodes k)" using Node.prems(1) by auto
    from Node.IH[OF k Node.prems(2)] k(1) show ?thesis by auto
  qed
qed

lemma child_id_below:
  "A \<in> set (nodes t) \<Longrightarrow> B \<in> set (children A) \<Longrightarrow>
     nid B \<in> set (concat (map ids (children t)))"
proof (cases t)
  case (Node i nm c x y cs)
  assume A: "A \<in> set (nodes t)" and B: "B \<in> set (children A)"
  show ?thesis
  proof (cases "A = t")
    case True
    then have "\<exists>k \<in> set (children t). nid B \<in> set (ids k)" using B nid_in_ids by blast
    then show ?thesis by simp
  next
    case False
    then obtain k where k: "k \<in> set cs" "A \<in> set (nodes k)" using A Node by auto
    have "B \<in> set (nodes k)" using k(2) B by (rule child_in_nodes)
    then have "nid B \<in> set (ids k)" using nodes_ids_subset[of B k] nid_in_ids[of B] by auto
    then show ?thesis using k(1) Node by auto
  qed
qed

lemma child_id_ne_root:
  "distinct (ids t) \<Longrightarrow> A \<in> set (nodes t) \<Longrightarrow> B \<in> set (children A) \<Longrightarrow> nid B \<noteq> nid t"
  using child_id_below[of A t B] by (cases t) auto

lemma others_unchanged:
  assumes "distinct (concat (map ids cs))" "k \<in> set cs" "j \<in> set cs" "k \<noteq> j" "b \<in> set (ids j)"
  shows "remove b k = k"
proof -
  have "b \<notin> set (ids k)" using siblings_disjoint[OF assms(1,2,3) _ assms(5)] assms(4) by auto
  then show ?thesis by (rule remove_absent)
qed

lemma last_child_round_trip:
  "distinct (ids t) \<Longrightarrow> A \<in> set (nodes t) \<Longrightarrow> children A = ks @ [B] \<Longrightarrow>
     reattach (nid A) B (remove (nid B) t) = t"
proof (induction t)
  case (Node i nm c x y cs)
  let ?a = "nid A" and ?b = "nid B"
  have dc: "distinct (concat (map ids cs))" and inot: "i \<notin> set (concat (map ids cs))"
    using Node.prems(1) by auto
  have Bc: "B \<in> set (children A)" using Node.prems(3) by simp
  show ?case
  proof (cases "A = Node i nm c x y cs")
    case True
    then have cs: "cs = ks @ [B]" and ia: "i = ?a" using Node.prems(3) by auto
    have bk: "\<forall>k \<in> set ks. ?b \<notin> set (ids k)"
      using dc unfolding cs using nid_in_ids[of B] by auto
    then have "\<forall>k \<in> set ks. nid k \<noteq> ?b" using nid_in_ids by metis
    then have f: "filter (\<lambda>c. nid c \<noteq> ?b) ks = ks" by (simp add: filter_id_conv)
    have r: "map (remove ?b) ks = ks" using bk by (intro map_idI remove_absent) auto
    have "\<forall>k \<in> set ks. ?a \<notin> set (ids k)" using inot ia cs by auto
    then have ra: "map (reattach ?a B) ks = ks" by (intro map_idI reattach_absent) auto
    show ?thesis using f r ra ia cs by simp
  next
    case False
    then obtain k0 where k0: "k0 \<in> set cs" "A \<in> set (nodes k0)" using Node.prems(2) by auto
    have ak0: "?a \<in> set (ids k0)" using nodes_ids_subset[OF k0(2)] nid_in_ids[of A] by auto
    have bk0: "?b \<in> set (ids k0)"
      using nodes_ids_subset[OF child_in_nodes[OF k0(2) Bc]] nid_in_ids[of B] by auto
    have ia: "i \<noteq> ?a" using ak0 k0(1) inot by auto
    have dk0: "distinct (ids k0)" using dc k0(1) by (auto simp: distinct_concat_iff)
    have keep: "\<forall>k \<in> set cs. nid k \<noteq> ?b"
    proof
      fix k assume k: "k \<in> set cs"
      show "nid k \<noteq> ?b"
      proof (cases "k = k0")
        case True
        then show ?thesis using child_id_ne_root[OF dk0 k0(2) Bc] by simp
      next
        case False
        then have "?b \<notin> set (ids k)" using siblings_disjoint[OF dc k k0(1) _ bk0] by auto
        then show ?thesis by (metis nid_in_ids)
      qed
    qed
    then have f: "filter (\<lambda>c. nid c \<noteq> ?b) cs = cs" by (simp add: filter_id_conv)
    have "\<forall>k \<in> set cs. reattach ?a B (remove ?b k) = k"
    proof
      fix k assume k: "k \<in> set cs"
      show "reattach ?a B (remove ?b k) = k"
      proof (cases "k = k0")
        case True
        then show ?thesis using Node.IH[OF k0(1) dk0 k0(2) Node.prems(3)] by simp
      next
        case False
        then have "?b \<notin> set (ids k)" "?a \<notin> set (ids k)"
          using siblings_disjoint[OF dc k k0(1) _ bk0] siblings_disjoint[OF dc k k0(1) _ ak0]
          by auto
        then show ?thesis by (simp add: remove_absent reattach_absent)
      qed
    qed
    then have "map (reattach ?a B) (map (remove ?b) cs) = cs" by (simp add: map_idI)
    then show ?thesis using f ia by simp
  qed
qed

lemma parent_survives:
  "distinct (ids t) \<Longrightarrow> A \<in> set (nodes t) \<Longrightarrow> B \<in> set (children A) \<Longrightarrow>
     remove (nid B) A \<in> set (nodes (remove (nid B) t))"
proof (induction t)
  case (Node i nm c x y cs)
  show ?case
  proof (cases "A = Node i nm c x y cs")
    case True
    then show ?thesis by simp
  next
    case False
    then obtain k where k: "k \<in> set cs" "A \<in> set (nodes k)" using Node.prems(2) by auto
    have dk: "distinct (ids k)" using Node.prems(1) k(1) by (auto simp: distinct_concat_iff)
    have "nid k \<noteq> nid B" using child_id_ne_root[OF dk k(2) Node.prems(3)] by simp
    then have "k \<in> set (filter (\<lambda>c. nid c \<noteq> nid B) cs)" using k(1) by simp
    moreover have "remove (nid B) A \<in> set (nodes (remove (nid B) k))"
      using Node.IH[OF k(1) dk k(2) Node.prems(3)] .
    ultimately show ?thesis by (simp del: set_filter) blast
  qed
qed

lemma children_remove_child:
  assumes "distinct (ids A)" "B \<in> set (children A)"
  shows "children (remove (nid B) A) = filter (\<lambda>k. k \<noteq> B) (children A)"
proof (cases A)
  case (Node i nm c x y cs)
  have dc: "distinct (concat (map ids cs))" using assms(1) Node by simp
  have B: "B \<in> set cs" using assms(2) Node by simp
  have eq: "\<forall>k \<in> set cs. (nid k \<noteq> nid B) = (k \<noteq> B)"
    using siblings_disjoint[OF dc _ B _ nid_in_ids] nid_in_ids by metis
  then have f: "filter (\<lambda>k. nid k \<noteq> nid B) cs = filter (\<lambda>k. k \<noteq> B) cs"
    by (intro filter_cong) auto
  have "map (remove (nid B)) (filter (\<lambda>k. k \<noteq> B) cs) = filter (\<lambda>k. k \<noteq> B) cs"
    using others_unchanged[OF dc _ B _ nid_in_ids] by (intro map_idI) auto
  then show ?thesis using f Node by simp
qed

text \<open>
  C5 (as amended). In a tree with distinct ids where \<open>B\<close> is a child of the node \<open>A\<close> with
  id \<open>a\<close>, \<open>reparent(B.id, a)\<close> is carried out as a move: \<open>B\<close> is selected and becomes the
  last child of \<open>A\<close>, behind the other children in their old order. The tree is the one
  before exactly when \<open>B\<close> was the last child of \<open>A\<close> already.
\<close>

theorem reparent_onto_current_parent:
  assumes "distinct (ids (tree s))"
    and "findNode (tree s) a = Some A"
    and "B \<in> set (children A)"
  shows "\<exists>s'. reparent (nid B) a s = Returned s'
       \<and> selectedId s' = Some (nid B)
       \<and> findNode (tree s') a
           = Some (Node a (name A) (collapsed A) (px A) (py A)
                    (filter (\<lambda>k. k \<noteq> B) (children A) @ [B]))
       \<and> (tree s' = tree s) = (last (children A) = B)"
proof -
  let ?t = "tree s" and ?b = "nid B"
  have An: "A \<in> set (nodes ?t)" "nid A = a"
    using findNode_in_nodes(1)[OF assms(2)] findNode_Some(1)[OF assms(2)] by auto
  have Bn: "B \<in> set (nodes ?t)" using An(1) assms(3) by (rule child_in_nodes)
  have fB: "findNode ?t ?b = Some B" using assms(1) Bn by (rule findNode_unique)
  have dA: "distinct (ids A)" using assms(1) An(1) by (rule nodes_distinct)
  have nr: "?b \<noteq> nid ?t" using child_id_ne_root[OF assms(1) An(1) assms(3)] .
  have ne: "?b \<noteq> a" using child_id_ne_root[OF dA _ assms(3)] An(2) by simp
  have nd: "a \<notin> set (ids B)"
  proof
    assume "a \<in> set (ids B)"
    then have "a \<in> set (concat (map ids (children A)))" using assms(3) by auto
    then show False using dA An(2) by (cases A) auto
  qed
  have pin: "a \<in> set (ids ?t)" using assms(2) findNode_None_iff(1)[of ?t a] by auto
  let ?t' = "reattach a B (remove ?b ?t)"
  let ?s' = "(pushUndoUnlessDragging s)\<lparr>tree := ?t', selectedId := Some ?b\<rparr>"
  have r: "reparent ?b a s = Returned ?s'"
    using assms(1) fB pin nr ne nd by (rule reparent_success)
  note sh = reattach_remove_shape[OF assms(1) fB pin nr nd]
  have dw: "distinct (ids (remove ?b ?t))"
    using ids_remove[OF assms(1) fB] nr assms(1) by simp
  have "remove ?b A \<in> set (nodes (remove ?b ?t))"
    using assms(1) An(1) assms(3) by (rule parent_survives)
  from findNode_unique[OF dw this] have "findNode (remove ?b ?t) a = Some (remove ?b A)"
    using An(2) by simp
  then have fa: "findNode ?t' a = Some (Node a (name (remove ?b A)) (collapsed (remove ?b A))
       (px (remove ?b A)) (py (remove ?b A)) (children (remove ?b A) @ [B]))"
    using sh(4) by auto
  have flds: "name (remove ?b A) = name A" "collapsed (remove ?b A) = collapsed A"
    "px (remove ?b A) = px A" "py (remove ?b A) = py A"
    by (cases A; simp)+
  have ch: "children (remove ?b A) = filter (\<lambda>k. k \<noteq> B) (children A)"
    using dA assms(3) by (rule children_remove_child)
  let ?A' = "Node a (name A) (collapsed A) (px A) (py A) (filter (\<lambda>k. k \<noteq> B) (children A) @ [B])"
  have fa': "findNode ?t' a = Some ?A'" using fa flds ch by simp
  have iff: "(?t' = ?t) = (last (children A) = B)"
  proof
    assume "?t' = ?t"
    then have "Some ?A' = Some A" using fa' assms(2) by simp
    then have "children A = filter (\<lambda>k. k \<noteq> B) (children A) @ [B]"
      by (metis node.sel(6) option.inject)
    then show "last (children A) = B" by (metis last_snoc)
  next
    assume l: "last (children A) = B"
    have "children A \<noteq> []" using assms(3) by auto
    then have "children A = butlast (children A) @ [B]" using l by (metis append_butlast_last_id)
    from last_child_round_trip[OF assms(1) An(1) this] show "?t' = ?t" using An(2) by simp
  qed
  show ?thesis using r fa' iff by simp
qed

theorem reparent_onto_current_parent_witness:
  "distinct (ids (tree demo_state))
   \<and> findNode (tree demo_state) ''r'' = Some demo_tree
   \<and> Node ''c'' ''C'' None None None [] \<in> set (children demo_tree)
   \<and> (\<exists>s'. reparent ''c'' ''r'' demo_state = Returned s' \<and> tree s' = tree demo_state)"
  using reparent_onto_current_parent[of demo_state "''r''" demo_tree
      "Node ''c'' ''C'' None None None []"]
  by (simp add: model_defs)

text \<open>
  C5 as stated fails for a child that is not the last one: \<open>reparent(''a'', ''r'')\<close> in the
  demo tree, where \<open>''a''\<close> is the first of the two children of the root, swaps the two.
\<close>

theorem reparent_onto_current_parent_counterexample:
  "findNode (tree demo_state) ''r'' = Some demo_tree
   \<and> Node ''a'' ''A'' None None None [Node ''b'' ''B'' None None None []]
        \<in> set (children demo_tree)
   \<and> tree (stateAfter (reparent ''a'' ''r'' demo_state))
        = Node ''r'' ''Root'' None None None
            [Node ''c'' ''C'' None None None [],
             Node ''a'' ''A'' None None None [Node ''b'' ''B'' None None None []]]
   \<and> tree (stateAfter (reparent ''a'' ''r'' demo_state)) \<noteq> tree demo_state"
  by (simp add: model_defs)

section \<open>C6: export and import\<close>

lemma assignIds_mono:
  "k \<le> snd (assignIds gen j k)"
  "k \<le> snd (assignIds_list gen js k)"
proof (induction gen j k and gen js k rule: assignIds_assignIds_list.induct)
  case (1 gen i nm c x y cs k)
  then show ?case
    by (auto split: prod.splits option.splits if_splits intro: le_trans Suc_leD)
next
  case (2 gen k)
  then show ?case by simp
next
  case (3 gen c cs k)
  then show ?case by (auto split: prod.splits intro: le_trans)
qed

lemma addIds_unfold:
  "addIds gen (JNode i nm c x y cs) k =
     (Node (gen k) (case nm of None \<Rightarrow> ''Node'' | Some v \<Rightarrow> v) None
        (if x \<noteq> None \<and> y \<noteq> None then x else None)
        (if x \<noteq> None \<and> y \<noteq> None then y else None)
        (fst (addIds_list gen cs (snd (assignIds_list gen cs (Suc k))))),
      snd (addIds_list gen cs (snd (assignIds_list gen cs (Suc k)))))"
  by (simp split: prod.splits)

lemma addIds_list_Cons:
  "addIds_list gen (c # cs) k =
     (fst (addIds gen c k) # fst (addIds_list gen cs (snd (addIds gen c k))),
      snd (addIds_list gen cs (snd (addIds gen c k))))"
  by (simp split: prod.splits)

lemma drawnIn_Nil [simp]: "drawnIn gen k k' []"
  by (simp add: drawnIn_def)

lemma drawnIn_Cons:
  assumes "k < k1" "k1 \<le> k'" "drawnIn gen k1 k' xs"
  shows "drawnIn gen k k' (gen k # xs)"
proof -
  obtain ns where ns: "xs = map gen ns" "sorted_wrt (<) ns" "set ns \<subseteq> {k1..<k'}"
    using assms(3) by (auto simp: drawnIn_def)
  have "gen k # xs = map gen (k # ns)" using ns(1) by simp
  moreover have "sorted_wrt (<) (k # ns)" using ns(2,3) assms(1) by auto
  moreover have "set (k # ns) \<subseteq> {k..<k'}" using ns(3) assms(1,2) by auto
  ultimately show ?thesis unfolding drawnIn_def by (intro exI[of _ "k # ns"] conjI)
qed

lemma drawnIn_append:
  assumes "drawnIn gen k k1 xs" "drawnIn gen k1 k' js" "k \<le> k1" "k1 \<le> k'"
  shows "drawnIn gen k k' (xs @ js)"
proof -
  obtain ns where ns: "xs = map gen ns" "sorted_wrt (<) ns" "set ns \<subseteq> {k..<k1}"
    using assms(1) by (auto simp: drawnIn_def)
  obtain ms where ms: "js = map gen ms" "sorted_wrt (<) ms" "set ms \<subseteq> {k1..<k'}"
    using assms(2) by (auto simp: drawnIn_def)
  have "xs @ js = map gen (ns @ ms)" using ns(1) ms(1) by simp
  moreover have "sorted_wrt (<) (ns @ ms)"
    using ns(2,3) ms(2,3) by (fastforce simp: sorted_wrt_append)
  moreover have "set (ns @ ms) \<subseteq> {k..<k'}" using ns(3) ms(3) assms(3,4) by auto
  ultimately show ?thesis unfolding drawnIn_def by (intro exI[of _ "ns @ ms"] conjI)
qed

lemma addIds_fresh:
  "k < snd (addIds gen j k) \<and> drawnIn gen k (snd (addIds gen j k)) (ids (fst (addIds gen j k)))"
  "k \<le> snd (addIds_list gen js k) \<and>
   drawnIn gen k (snd (addIds_list gen js k)) (concat (map ids (fst (addIds_list gen js k))))"
proof (induction gen j k and gen js k rule: addIds_addIds_list.induct)
  case (1 gen i nm c x y cs k)
  let ?k1 = "snd (assignIds_list gen cs (Suc k))"
  have k1: "Suc k \<le> ?k1" by (rule assignIds_mono)
  have "assignIds gen (JNode None nm None None None cs) k
      = (Node (gen k) (case nm of None \<Rightarrow> ''Node'' | Some v \<Rightarrow> v) None None None
           (fst (assignIds_list gen cs (Suc k))), ?k1)"
    by (simp split: prod.splits)
  from 1[OF this[symmetric]]
  have ih: "?k1 \<le> snd (addIds_list gen cs ?k1)"
    "drawnIn gen ?k1 (snd (addIds_list gen cs ?k1)) (concat (map ids (fst (addIds_list gen cs ?k1))))"
    by auto
  have "drawnIn gen k (snd (addIds_list gen cs ?k1))
          (gen k # concat (map ids (fst (addIds_list gen cs ?k1))))"
    using k1 ih by (intro drawnIn_Cons[of k ?k1]) auto
  then show ?case using k1 ih(1) unfolding addIds_unfold by simp
next
  case (2 gen k)
  then show ?case by simp
next
  case (3 gen c cs k)
  let ?k1 = "snd (addIds gen c k)"
  have a: "k < ?k1" "drawnIn gen k ?k1 (ids (fst (addIds gen c k)))" using 3(1) by auto
  have b: "?k1 \<le> snd (addIds_list gen cs ?k1)"
    "drawnIn gen ?k1 (snd (addIds_list gen cs ?k1)) (concat (map ids (fst (addIds_list gen cs ?k1))))"
    using 3(2)[of "fst (addIds gen c k)" ?k1] by auto
  show ?case unfolding addIds_list_Cons using a b
    by (auto intro!: drawnIn_append[of gen k ?k1])
qed

lemma addIds_same:
  "sameModuloIds t (fst (addIds gen (strip t) k))"
proof (induction t arbitrary: k)
  case (Node i nm c x y cs)
  have "sameModuloIds_list cs (fst (addIds_list gen (map strip cs) k'))" for k'
    using Node.IH
  proof (induction cs arbitrary: k')
    case Nil then show ?case by simp
  next
    case (Cons a cs)
    then show ?case unfolding list.map addIds_list_Cons by simp
  qed
  then show ?case unfolding strip.simps addIds_unfold by simp
qed

text \<open>
  C6. Importing the JSON exported from the tree of \<open>s\<close> gives a tree that agrees with it up
  to ids (names, children and their order, and \<open>px\<close>/\<open>py\<close> where both are present). For
  every imported JSON tree, whatever ids it carries, the ids of the new tree are the results
  of distinct \<open>nanoid\<close> calls made during the import, the root is selected, and both history
  stacks are empty.
\<close>

theorem import_export_round_trip:
  "sameModuloIds (tree s) (tree (importJSON gen (exportJSON s) s))
   \<and> drawnIn gen (nanoidCalls s) (nanoidCalls (importJSON gen json s))
        (ids (tree (importJSON gen json s)))
   \<and> selectedId (importJSON gen json s) = Some (nid (tree (importJSON gen json s)))
   \<and> undoStack (importJSON gen json s) = []
   \<and> redoStack (importJSON gen json s) = []"
  using addIds_same[of "tree s" gen "nanoidCalls s"] addIds_fresh(1)[of "nanoidCalls s" gen json]
  by (simp add: importJSON_def exportJSON_def case_prod_beta)

theorem import_export_round_trip_witness:
  "tree (importJSON demo_gen (exportJSON (moveNode ''a'' 10 20 demo_state)) demo_state)
     = Node ''n'' ''Root'' None None None
        [Node ''nxxxx'' ''A'' None (Some 10) (Some 20) [Node ''nxxxxxx'' ''B'' None None None []],
         Node ''nxxxxxxx'' ''C'' None None None []]
   \<and> sameModuloIds (tree (moveNode ''a'' 10 20 demo_state))
        (tree (importJSON demo_gen (exportJSON (moveNode ''a'' 10 20 demo_state))
           (moveNode ''a'' 10 20 demo_state)))"
  using import_export_round_trip[of "moveNode ''a'' 10 20 demo_state" demo_gen]
  by (simp add: model_defs numeral_eq_Suc)

section \<open>C7: edits on an id that is not in the tree\<close>

lemma mapTree_id: "(\<forall>n \<in> set (nodes t). fn n = n) \<Longrightarrow> mapTree fn t = t"
proof (induction t)
  case (Node i nm c x y cs)
  have "fn (Node i nm c x y cs) = Node i nm c x y cs" using Node.prems by simp
  moreover have "map (mapTree fn) cs = cs" using Node by (intro map_idI) auto
  ultimately show ?case by simp
qed

lemma mapTree_absent:
  assumes "a \<notin> set (ids t)"
  shows "mapTree (\<lambda>n. if nid n = a then f n else n) t = t"
proof (rule mapTree_id, rule ballI)
  fix n assume "n \<in> set (nodes t)"
  then have "nid n \<in> set (ids t)" using ids_nodes[of t] by (metis image_eqI set_map)
  then show "(if nid n = a then f n else n) = n" using assms by auto
qed

lemma addChildAt_absent:
  "a \<notin> set (ids t) \<Longrightarrow> addChildAt gen a t k = (t, k)"
  "a \<notin> set (concat (map ids cs)) \<Longrightarrow> addChildAt_list gen a cs k = (cs, k)"
  by (induction gen a t k and gen a cs k rule: addChildAt_addChildAt_list.induct) auto

lemma reparent_missing_child_throws:
  "a \<notin> set (ids (tree s)) \<Longrightarrow> a \<noteq> b \<Longrightarrow> reparent a b s = Threw TypeError s"
  using findNode_None_iff(1)[of "tree s" a] nid_in_ids[of "tree s"]
  by (auto simp: reparent_def)

lemma rename_toggle_nanoidCalls [simp]:
  "nanoidCalls (renameNode a nm s) = nanoidCalls s"
  "nanoidCalls (toggleCollapse a s) = nanoidCalls s"
  by (simp_all add: renameNode_def toggleCollapse_def Let_def)

lemma ensureSelected_cong:
  "tree s' = tree s \<Longrightarrow> selectedId s' = selectedId s \<Longrightarrow>
     selectedId (ensureSelected s') = selectedId (ensureSelected s)"
  by (simp add: ensureSelected_def split: option.splits)

text \<open>
  C7 (as amended). For an id that is not in the tree, \<open>addChild\<close>, \<open>deleteNode\<close>,
  \<open>renameNode\<close> and \<open>toggleCollapse\<close> complete and leave the tree as it is (and draw no
  id), but they are edits like any other: unless a drag is in progress, a snapshot of the
  state is pushed on the undo stack and the redo stack is cleared. After \<open>addChild\<close> and
  \<open>deleteNode\<close> the root is selected; \<open>renameNode\<close> and \<open>toggleCollapse\<close> leave the selection
  to the render effect.
\<close>

theorem missing_id_edits:
  assumes "a \<notin> set (ids (tree s))"
    and "e \<in> {AddChild a, DeleteNode a, RenameNode a nm, ToggleCollapse a}"
  shows "tree (step gen e s) = tree s
       \<and> nanoidCalls (step gen e s) = nanoidCalls s
       \<and> undoStack (step gen e s)
           = (if preDragSnapshot s = None then cap (undoStack s @ [snapshot s]) else undoStack s)
       \<and> redoStack (step gen e s) = (if preDragSnapshot s = None then [] else redoStack s)
       \<and> selectedId (step gen e s)
           = (if e = AddChild a \<or> e = DeleteNode a then Some (nid (tree s))
              else selectedId (ensureSelected s))"
proof -
  have nr: "nid (tree s) \<noteq> a" using assms(1) nid_in_ids[of "tree s"] by auto
  have fn: "findNode (tree s) a = None" using assms(1) by (simp add: findNode_None_iff)
  consider "e = AddChild a" | "e = DeleteNode a" | "e = RenameNode a nm" | "e = ToggleCollapse a"
    using assms(2) by auto
  then show ?thesis
  proof cases
    case 1
    then show ?thesis using assms(1) fn
      by (simp add: step_def addChild_def addChildAt_absent ensureSelected_def Let_def)
  next
    case 2
    then show ?thesis using assms(1) nr
      by (simp add: step_def deleteNode_def remove_absent ensureSelected_def Let_def)
  next
    case 3
    have "tree (renameNode a nm s) = tree s"
      using mapTree_absent[OF assms(1)] by (simp add: renameNode_def Let_def)
    then show ?thesis using 3 ensureSelected_cong[of "renameNode a nm s" s]
      by (simp add: step_def)
  next
    case 4
    have "tree (toggleCollapse a s) = tree s"
      using mapTree_absent[OF assms(1)] by (simp add: toggleCollapse_def Let_def)
    then show ?thesis using 4 ensureSelected_cong[of "toggleCollapse a s" s]
      by (simp add: step_def)
  qed
qed

theorem missing_id_edits_witness:
  "''zz'' \<notin> set (ids (tree demo_state))
   \<and> AddChild ''zz'' \<in> {AddChild ''zz'', DeleteNode ''zz'', RenameNode ''zz'' ''x'', ToggleCollapse ''zz''}
   \<and> tree (step demo_gen (AddChild ''zz'') demo_state) = demo_tree
   \<and> undoStack (step demo_gen (AddChild ''zz'') demo_state) = [(demo_tree, Some ''r'')]"
  using missing_id_edits[of "''zz''" demo_state "AddChild ''zz''" "''x''" demo_gen]
  by (simp add: model_defs)

text \<open>
  C7 as stated fails: with the id \<open>''zz''\<close>, which the demo tree does not hold, \<open>addChild\<close>
  and \<open>renameNode\<close> change the undo stack, and \<open>reparent\<close> throws (it reads \<open>n.id\<close> of
  the \<open>null\<close> that \<open>findNode\<close> returned).
\<close>

theorem missing_id_not_noop_counterexample:
  "''zz'' \<notin> set (ids (tree demo_state))
   \<and> undoStack (addChild demo_gen ''zz'' demo_state) \<noteq> undoStack demo_state
   \<and> undoStack (renameNode ''zz'' ''x'' demo_state) \<noteq> undoStack demo_state
   \<and> reparent ''zz'' ''a'' demo_state = Threw TypeError demo_state"
  by (simp add: model_defs)

section \<open>C8: positions\<close>

text \<open>
  C8 (as amended). The radius scale is \<open>max(260, 0.42 \<times> min(w, h))\<close>. A node that the
  layout puts at angle \<open>th\<close> and radius \<open>rad\<close> gets \<open>autoX = rad \<times> cos(th - \<pi>/2)\<close> and
  \<open>autoY = rad \<times> sin(th - \<pi>/2)\<close>, which lie on the circle of radius \<open>rad\<close>. The resolved
  position is decided for each coordinate on its own: \<open>x\<close> is \<open>px\<close> when the node has a \<open>px\<close>
  and \<open>autoX\<close> otherwise, \<open>y\<close> is \<open>py\<close> when the node has a \<open>py\<close> and \<open>autoY\<close> otherwise.
\<close>

theorem layout_position:
  "radiusScale w h = max 260 (0.42 * min w h)
   \<and> autoX (layoutNode th rad n) = rad * cos (th - pi / 2)
   \<and> autoY (layoutNode th rad n) = rad * sin (th - pi / 2)
   \<and> (autoX (layoutNode th rad n))\<^sup>2 + (autoY (layoutNode th rad n))\<^sup>2 = rad\<^sup>2
   \<and> resolvedX (layoutNode th rad n)
        = (case px n of None \<Rightarrow> autoX (layoutNode th rad n) | Some v \<Rightarrow> v)
   \<and> resolvedY (layoutNode th rad n)
        = (case py n of None \<Rightarrow> autoY (layoutNode th rad n) | Some v \<Rightarrow> v)"
proof -
  have "(rad * cos (th - pi / 2))\<^sup>2 + (rad * sin (th - pi / 2))\<^sup>2
      = rad\<^sup>2 * ((cos (th - pi / 2))\<^sup>2 + (sin (th - pi / 2))\<^sup>2)"
    by (simp only: power_mult_distrib distrib_left)
  also have "\<dots> = rad\<^sup>2" by (simp only: sin_cos_squared_add2 mult_1_right)
  finally have circle: "(rad * cos (th - pi / 2))\<^sup>2 + (rad * sin (th - pi / 2))\<^sup>2 = rad\<^sup>2" .
  have a: "autoX (layoutNode th rad n) = rad * cos (th - pi / 2)"
    "autoY (layoutNode th rad n) = rad * sin (th - pi / 2)"
    by (simp_all add: layoutNode_def Let_def)
  have r: "resolvedX (layoutNode th rad n)
        = (case px n of None \<Rightarrow> autoX (layoutNode th rad n) | Some v \<Rightarrow> v)"
    "resolvedY (layoutNode th rad n)
        = (case py n of None \<Rightarrow> autoY (layoutNode th rad n) | Some v \<Rightarrow> v)"
    by (simp_all add: layoutNode_def Let_def split: option.splits)
  have s: "radiusScale w h = max 260 (0.42 * min w h)"
    by (simp add: radiusScale_def mult.commute)
  show ?thesis using circle r s by (simp only: a)
qed

theorem layout_position_witness:
  "resolvedX (layoutNode (pi / 2) 260 (Node ''a'' ''A'' None (Some 5) (Some 7) [])) = 5
   \<and> resolvedY (layoutNode (pi / 2) 260 (Node ''a'' ''A'' None (Some 5) (Some 7) [])) = 7
   \<and> resolvedX (layoutNode (pi / 2) 260 (Node ''a'' ''A'' None None None [])) = 260
   \<and> resolvedY (layoutNode (pi / 2) 260 (Node ''a'' ''A'' None None None [])) = 0
   \<and> radiusScale 800 600 = 260"
  using layout_position[of 800 600 "pi / 2" 260 "Node ''a'' ''A'' None (Some 5) (Some 7) []"]
    layout_position[of 800 600 "pi / 2" 260 "Node ''a'' ''A'' None None None []"]
  by (simp add: layoutNode_def radiusScale_def)

text \<open>
  C8 as stated fails for a node that has \<open>px\<close> but no \<open>py\<close>: laid out at angle \<open>\<pi>/2\<close> and
  radius \<open>260\<close>, so that the automatic position is \<open>(260, 0)\<close>, the node with \<open>px = 5\<close> is
  resolved to \<open>(5, 0)\<close>, which is neither a manual position \<open>(px, py)\<close> nor the automatic
  one.
\<close>

theorem layout_partial_override_counterexample:
  "px (Node ''a'' ''A'' None (Some 5) None []) = Some 5
   \<and> py (Node ''a'' ''A'' None (Some 5) None []) = None
   \<and> resolvedX (layoutNode (pi / 2) 260 (Node ''a'' ''A'' None (Some 5) None [])) = 5
   \<and> resolvedY (layoutNode (pi / 2) 260 (Node ''a'' ''A'' None (Some 5) None [])) = 0
   \<and> autoX (layoutNode (pi / 2) 260 (Node ''a'' ''A'' None (Some 5) None [])) = 260
   \<and> autoY (layoutNode (pi / 2) 260 (Node ''a'' ''A'' None (Some 5) None [])) = 0"
  by (simp add: layoutNode_def)

section \<open>C9: connector curves\<close>

text \<open>
  C9 (as amended). For every link, also one between identical positions, no division has a
  zero divisor: each component of the direction is divided by the distance, or by \<open>1\<close> when
  the distance is exactly zero (distances between \<open>0\<close> and \<open>1\<close> are used as they are). The
  bend is the distance times \<open>0.2\<close> clamped to \<open>[20, 80]\<close>, the stroke width is
  \<open>max(1.5, 4 - depth \<times> 0.4)\<close>, and for identical positions the direction is zero, the bend
  is \<open>20\<close> and both control points are the position itself.
\<close>

theorem link_no_zero_divisor:
  "\<exists>g. linkOf s t d = Some g
     \<and> direction g =
         ((fst t - fst s) / (if hypot (fst t - fst s) (snd t - snd s) = 0 then 1
                             else hypot (fst t - fst s) (snd t - snd s)),
          (snd t - snd s) / (if hypot (fst t - fst s) (snd t - snd s) = 0 then 1
                             else hypot (fst t - fst s) (snd t - snd s)))
     \<and> bend g = min 80 (max 20 (hypot (fst t - fst s) (snd t - snd s) * 0.2))
     \<and> 20 \<le> bend g \<and> bend g \<le> 80
     \<and> width g = max 1.5 (4 - real d * 0.4)
     \<and> (s = t \<longrightarrow> direction g = (0, 0) \<and> bend g = 20 \<and> control1 g = s \<and> control2 g = s)"
  by (auto simp: linkOf_def jsDivide_def hypot_def Let_def)

theorem link_no_zero_divisor_witness:
  "(3::real, 4::real) = (3, 4)
   \<and> map_option direction (linkOf (3, 4) (3, 4) 2) = Some (0, 0)
   \<and> map_option bend (linkOf (3, 4) (3, 4) 2) = Some 20
   \<and> map_option width (linkOf (3, 4) (3, 4) 2) = Some (16 / 5)"
  using link_no_zero_divisor[of "(3, 4)" "(3, 4)" 2]
  by (auto simp: linkOf_def jsDivide_def hypot_def Let_def)

text \<open>
  C9 as stated, with the distance floored at \<open>1\<close>, fails below \<open>1\<close>: for the link from
  \<open>(0, 0)\<close> to \<open>(0.5, 0)\<close> the code divides by the distance \<open>0.5\<close> and gets the direction
  \<open>(1, 0)\<close>; a divisor \<open>max(dist, 1)\<close> would give \<open>(0.5, 0)\<close>.
\<close>

theorem link_floor_counterexample:
  "map_option direction (linkOf (0, 0) (1 / 2, 0) 1) = Some (1, 0)
   \<and> ((1 / 2 - 0) / max (hypot (1 / 2 - 0) (0 - 0)) 1,
       (0 - 0) / max (hypot (1 / 2 - 0) (0 - 0)) 1) = (1 / 2, 0 :: real)"
  by (simp add: linkOf_def jsDivide_def hypot_def Let_def real_sqrt_divide power2_eq_square)

section \<open>C10: the selection names a node of the tree\<close>

text \<open>
  C10 (as amended). After every event and its render effect the selected id is the id of a
  node of the tree. \<open>deleteNode\<close> of an id other than the root's, \<open>importJSON\<close> and \<open>reset\<close>
  end with the root selected. \<open>undo\<close> and \<open>redo\<close> restore the tree of the snapshot they pop
  together with its selection, and end with the root selected only if the snapshot's
  selection is not a node of that tree.
\<close>

theorem selection_invariant:
  "selectedExists (step gen e s)
   \<and> (a \<noteq> nid (tree s) \<longrightarrow>
        selectedId (step gen (DeleteNode a) s) = Some (nid (tree (step gen (DeleteNode a) s))))
   \<and> selectedId (step gen (ImportJSON json) s) = Some (nid (tree (step gen (ImportJSON json) s)))
   \<and> selectedId (step gen Reset s) = Some (nid (tree (step gen Reset s)))
   \<and> (undoStack s = us @ [(t, sel)] \<longrightarrow>
        tree (step gen Undo s) = t \<and>
        selectedId (step gen Undo s)
          = (case sel of None \<Rightarrow> Some (nid t)
             | Some b \<Rightarrow> if findNode t b = None then Some (nid t) else Some b))
   \<and> (redoStack s = rs @ [(t', sel')] \<longrightarrow>
        tree (step gen Redo s) = t' \<and>
        selectedId (step gen Redo s)
          = (case sel' of None \<Rightarrow> Some (nid t')
             | Some b \<Rightarrow> if findNode t' b = None then Some (nid t') else Some b))"
  by (auto simp: step_def deleteNode_def importJSON_def reset_def undo_def redo_def restore_def
      ensureSelected_def Let_def case_prod_beta selectedExists_def split: option.splits)

theorem selection_invariant_witness:
  "''b'' \<noteq> nid (tree demo_history_state)
   \<and> undoStack demo_history_state = [] @ [(demo_tree, Some ''r'')]
   \<and> redoStack demo_history_state = [] @
        [(Node ''r'' ''Root'' None None None
           [Node ''a'' ''A'' (Some True) None None [Node ''b'' ''B'' None None None []]],
          Some ''r'')]
   \<and> selectedExists (step demo_gen (Select ''zz'') demo_history_state)
   \<and> selectedId (step demo_gen (DeleteNode ''b'') demo_history_state) = Some ''r''
   \<and> selectedId (step demo_gen Undo demo_history_state) = Some ''r''
   \<and> selectedId (step demo_gen Redo demo_history_state) = Some ''r''"
  using selection_invariant[where gen = demo_gen and e = "Select ''zz''"
      and s = demo_history_state and a = "''b''" and us = "[]" and t = demo_tree
      and sel = "Some ''r''" and rs = "[]"
      and t' = "Node ''r'' ''Root'' None None None
           [Node ''a'' ''A'' (Some True) None None [Node ''b'' ''B'' None None None []]]"
      and sel' = "Some ''r''"]
  by (simp add: demo_history_state_def model_defs selectedExists_def)

text \<open>
  C10 as stated fails for \<open>undo\<close>: with the new child \<open>''n''\<close> of \<open>''a''\<close> selected, undoing the
  \<open>addChild\<close> removes the selected node, and the selection becomes \<open>''a''\<close>, the selection
  of the snapshot, not the root \<open>''r''\<close>.
\<close>

theorem undo_keeps_snapshot_selection_counterexample:
  "selectedId demo_child_selected = Some ''n''
   \<and> findNode (tree demo_child_selected) ''n'' = Some (Node ''n'' ''New Node'' None None None [])
   \<and> findNode (tree (step demo_gen Undo demo_child_selected)) ''n'' = None
   \<and> nid (tree (step demo_gen Undo demo_child_selected)) = ''r''
   \<and> selectedId (step demo_gen Undo demo_child_selected) = Some ''a''"
  by (simp add: demo_child_selected_def model_defs)

end
